theory Spec2Isabelle
  imports Complex_Main
begin

section \<open>The plugin manager: data model\<close>

text \<open>
  The development follows the class \<open>PluginManager\<close>. The two JavaScript maps of the
  manager keep their insertion order, which decides the order of the depth-first walk and
  therefore which error is raised first; they are association lists here. Everything the
  manager does to the outside (calls of a plugin's \<open>initialize\<close> and \<open>destroy\<close>, lines
  written to the logger, waits on a timer) is appended to a list of events in the state.
\<close>

subsection \<open>Thrown values and errors\<close>

text \<open>
  A value thrown or rejected by a plugin is either an instance of \<open>Error\<close> (with its
  message) or something else (kept as its string conversion). The manager tests
  \<open>instanceof Error\<close> on what it catches.
\<close>

datatype js_value = Error_instance string | Non_error string

fun instanceof_Error :: "js_value \<Rightarrow> bool" where
  "instanceof_Error (Error_instance msg) = True"
| "instanceof_Error (Non_error v) = False"

datatype context_value = Ctx_string string | Ctx_number int

text \<open>
  \<open>ElizaError\<close>: message, code, optional cause and context. The timestamp and the stack
  analysis of the class are left out; no operation of the manager reads them.
\<close>

record eliza_error =
  message :: string
  code :: string
  cause :: "js_value option"
  error_context :: "(string \<times> context_value) list"

definition CONFIGURATION_ERROR :: string where
  "CONFIGURATION_ERROR = ''CONFIGURATION_ERROR''"

definition PLUGIN_ERROR :: string where
  "PLUGIN_ERROR = ''PLUGIN_ERROR''"

text \<open>What a \<open>catch\<close> block of the manager can receive.\<close>

datatype caught = From_plugin js_value | From_manager eliza_error

subsection \<open>Plugins\<close>

text \<open>
  The outcome of an awaited promise that settles, and the behaviour of one call of
  \<open>initialize\<close>, which is raced against a timer: it resolves, rejects, or is still
  pending when the timer fires.
\<close>

datatype outcome = Resolved | Rejected js_value

datatype settle = Resolves | Rejects js_value | Pending

text \<open>
  A plugin is an object outside the manager, with a state of its own. It is described by what
  its successive calls do: \<open>initialize p k\<close> is the behaviour of call number \<open>k\<close> (from 0) of
  \<open>initialize\<close>, and the two counters say how many calls the object has received so far.
  \<open>destroy\<close> is optional; its promise is taken to settle.
\<close>

record plugin =
  initialize :: "nat \<Rightarrow> settle"
  destroy :: "(nat \<Rightarrow> outcome) option"
  initialize_count :: nat
  destroy_count :: nat

text \<open>What the \<open>i\<close>-th coming call of \<open>initialize\<close> does.\<close>

definition next_initialize :: "plugin \<Rightarrow> nat \<Rightarrow> settle" where
  "next_initialize p i = initialize p (initialize_count p + i)"

datatype recovery_strategy = Restart | Failover | Terminate

text \<open>
  The fields of \<open>errorHandling\<close> are not validated anywhere. A JavaScript number is taken as
  a rational here, so that a bound such as 2.5 is a value; \<open>None\<close> is \<open>undefined\<close>, which the
  spread in \<open>normalizeConfig\<close> lets through (\<open>NaN\<close> compares like it). An infinite bound,
  with which a plugin that never initializes keeps the loop running for ever, is not a value
  of this type.
\<close>

type_synonym number = rat

record error_handling =
  retryAttempts :: "number option"
  timeoutMs :: "number option"
  recoveryStrategy :: "recovery_strategy option"

record plugin_metadata =
  version :: string
  description :: "string option"

text \<open>
  \<open>PluginConfig\<close> as the caller passes it: every field is optional. For the fields of
  \<open>errorHandling\<close>, which are copied by an object spread, a property that is absent (\<open>None\<close>)
  differs from a property that is there with the value \<open>undefined\<close> (\<open>Some None\<close>). The other
  fields are read with \<open>??\<close>, which treats both alike.
\<close>

record error_handling_opt =
  retryAttempts_opt :: "number option option"
  timeoutMs_opt :: "number option option"
  recoveryStrategy_opt :: "recovery_strategy option option"

record plugin_config_opt =
  metadata_opt :: "plugin_metadata option"
  dependencies_opt :: "string list option"
  options_opt :: "(string \<times> string) list option"
  errorHandling_opt :: "error_handling_opt option"

text \<open>\<open>Required<PluginConfig>\<close>, the result of \<open>normalizeConfig\<close>.\<close>

record plugin_config =
  config_metadata :: plugin_metadata
  config_dependencies :: "string list"
  config_options :: "(string \<times> string) list"
  config_errorHandling :: error_handling

record metrics =
  lastHeartbeat :: int
  errorCount :: int
  warningCount :: int

record plugin_entry =
  plugin :: plugin
  config :: plugin_config
  isInitialized :: bool
  entry_metrics :: metrics

subsection \<open>Events and the manager's state\<close>

datatype event =
    Log_info string
  | Log_warn string
  | Log_error string caught
  | Call_initialize string
  | Call_destroy string
  | Wait int

record manager =
  plugins :: "(string \<times> plugin_entry) list"
  dependencies :: "(string \<times> string list) list"
  events :: "event list"

text \<open>\<open>Map.prototype.set\<close>: an existing key keeps its place, a new key goes to the end.\<close>

fun map_set :: "'k \<Rightarrow> 'v \<Rightarrow> ('k \<times> 'v) list \<Rightarrow> ('k \<times> 'v) list" where
  "map_set k v [] = [(k, v)]"
| "map_set k v (p # ps) = (if fst p = k then (k, v) # ps else p # map_set k v ps)"

definition map_delete :: "'k \<Rightarrow> ('k \<times> 'v) list \<Rightarrow> ('k \<times> 'v) list" where
  "map_delete k ps = filter (\<lambda>p. fst p \<noteq> k) ps"

text \<open>\<open>new Set(array)\<close>: the first occurrence of each element, in order.\<close>

fun set_from_array :: "'a list \<Rightarrow> 'a list" where
  "set_from_array [] = []"
| "set_from_array (x # xs) = x # set_from_array (filter (\<lambda>y. y \<noteq> x) xs)"

definition keys :: "manager \<Rightarrow> string list" where
  "keys m = map fst (plugins m)"

definition has :: "manager \<Rightarrow> string \<Rightarrow> bool" where
  "has m name \<longleftrightarrow> name \<in> set (keys m)"

definition get_entry :: "manager \<Rightarrow> string \<Rightarrow> plugin_entry option" where
  "get_entry m name = map_of (plugins m) name"

definition get_dependencies :: "manager \<Rightarrow> string \<Rightarrow> string list option" where
  "get_dependencies m name = map_of (dependencies m) name"

section \<open>Resolving the initialization order\<close>

fun join :: "string \<Rightarrow> string list \<Rightarrow> string" where
  "join sep [] = []"
| "join sep [x] = x"
| "join sep (x # y # ys) = x @ sep @ join sep (y # ys)"

definition circular_dependency_error :: "string list \<Rightarrow> eliza_error" where
  "circular_dependency_error ids =
     \<lparr>message = ''Circular dependency detected'', code = CONFIGURATION_ERROR, cause = None,
      error_context = [(''cycle'', Ctx_string (join '' -> '' ids))]\<rparr>"

definition missing_dependency_error :: "string \<Rightarrow> string \<Rightarrow> eliza_error" where
  "missing_dependency_error dep name =
     \<lparr>message = ''Missing dependency: '' @ dep @ '' for plugin '' @ name,
      code = CONFIGURATION_ERROR, cause = None, error_context = []\<rparr>"

text \<open>
  The state of the walk is the pair of \<open>visited\<close> and \<open>initOrder\<close>. The set \<open>path\<close> is
  shared and mutated in the source; since \<open>visit\<close> adds \<open>name\<close> at the end of it and
  deletes it again before returning normally, and a throw abandons the walk, passing the
  extended path to the calls for the dependencies is the same. \<open>visit_deps\<close> is the loop
  over the dependencies of \<open>name\<close>, called with \<open>name\<close> already on the path.
\<close>

type_synonym walk_state = "string list \<times> string list"

function visit :: "manager \<Rightarrow> string \<Rightarrow> string list \<Rightarrow> walk_state \<Rightarrow> eliza_error + walk_state"
  and visit_deps ::
    "manager \<Rightarrow> string \<Rightarrow> string list \<Rightarrow> string list \<Rightarrow> walk_state \<Rightarrow> eliza_error + walk_state"
where
  "visit m name path s =
     (if name \<in> set path then Inl (circular_dependency_error (path @ [name]))
      else if name \<in> set (fst s) then Inr s
      else (case (case get_dependencies m name of
                    None \<Rightarrow> Inr s
                  | Some deps \<Rightarrow> visit_deps m name deps (path @ [name]) s) of
              Inl e \<Rightarrow> Inl e
            | Inr s' \<Rightarrow> Inr (fst s' @ [name], snd s' @ [name])))"
| "visit_deps m name [] path s = Inr s"
| "visit_deps m name (dep # rest) path s =
     (if \<not> has m dep then Inl (missing_dependency_error dep name)
      else (case visit m dep path s of
              Inl e \<Rightarrow> Inl e
            | Inr s' \<Rightarrow> visit_deps m name rest path s'))"
  by pat_completeness auto

termination
proof (relation "inv_image (less_than <*lex*> less_than)
    (\<lambda>x. case x of
       Inl (m, name, path, s) \<Rightarrow>
         (card (set (keys m) - set path) + (if name \<in> set (keys m) then 0 else 1), 0::nat)
     | Inr (m, name, deps, path, s) \<Rightarrow>
         (card (set (keys m) - set path), Suc (length deps)))", goal_cases)
  case 1
  show ?case by (intro wf_inv_image wf_lex_prod wf_less_than)
next
  case (2 m name path s deps)
  have "name \<in> set (keys m) \<Longrightarrow> card (set (keys m) - set (path @ [name])) < card (set (keys m) - set path)"
    using 2(1) by (intro psubset_card_mono) auto
  moreover have "name \<notin> set (keys m) \<Longrightarrow> set (keys m) - set (path @ [name]) = set (keys m) - set path"
    by auto
  ultimately show ?case by auto
next
  case (3 m dep name rest path s)
  then show ?case by (simp add: has_def)
next
  case (4 m dep name rest path s s')
  then show ?case by simp
qed

fun visit_all :: "manager \<Rightarrow> string list \<Rightarrow> walk_state \<Rightarrow> eliza_error + walk_state" where
  "visit_all m [] s = Inr s"
| "visit_all m (name # names) s =
     (case visit m name [] s of
        Inl e \<Rightarrow> Inl e
      | Inr s' \<Rightarrow> visit_all m names s')"

definition resolveInitializationOrder :: "manager \<Rightarrow> eliza_error + string list" where
  "resolveInitializationOrder m =
     (case visit_all m (keys m) ([], []) of
        Inl e \<Rightarrow> Inl e
      | Inr s \<Rightarrow> Inr (snd s))"

section \<open>Registration\<close>

definition already_registered_error :: "string \<Rightarrow> eliza_error" where
  "already_registered_error name =
     \<lparr>message = ''Plugin already registered: '' @ name, code = CONFIGURATION_ERROR,
      cause = None, error_context = []\<rparr>"

definition invalid_dependencies_error :: "string \<Rightarrow> eliza_error" where
  "invalid_dependencies_error name =
     \<lparr>message = ''Invalid dependencies configuration for plugin: '' @ name,
      code = CONFIGURATION_ERROR, cause = None, error_context = []\<rparr>"

text \<open>\<open>!dep\<close> on a string holds for the empty string only.\<close>

definition validatePluginConfig :: "string \<Rightarrow> plugin_config_opt \<Rightarrow> manager \<Rightarrow> eliza_error + unit" where
  "validatePluginConfig name cfg m =
     (if has m name then Inl (already_registered_error name)
      else if (case dependencies_opt cfg of
                 None \<Rightarrow> False
               | Some deps \<Rightarrow> list_ex (\<lambda>dep. dep = []) deps)
        then Inl (invalid_dependencies_error name)
      else Inr ())"

definition normalizeConfig :: "plugin_config_opt \<Rightarrow> plugin_config" where
  "normalizeConfig cfg =
     \<lparr>config_metadata =
        (case metadata_opt cfg of
           None \<Rightarrow> \<lparr>version = ''1.0.0'', description = Some ''No description provided''\<rparr>
         | Some md \<Rightarrow> md),
      config_dependencies = (case dependencies_opt cfg of None \<Rightarrow> [] | Some deps \<Rightarrow> deps),
      config_options = (case options_opt cfg of None \<Rightarrow> [] | Some opts \<Rightarrow> opts),
      config_errorHandling =
        \<lparr>retryAttempts =
           (case errorHandling_opt cfg of
              None \<Rightarrow> Some 3
            | Some eh \<Rightarrow> (case retryAttempts_opt eh of None \<Rightarrow> Some 3 | Some own \<Rightarrow> own)),
         timeoutMs =
           (case errorHandling_opt cfg of
              None \<Rightarrow> Some 5000
            | Some eh \<Rightarrow> (case timeoutMs_opt eh of None \<Rightarrow> Some 5000 | Some own \<Rightarrow> own)),
         recoveryStrategy =
           (case errorHandling_opt cfg of
              None \<Rightarrow> Some Restart
            | Some eh \<Rightarrow>
                (case recoveryStrategy_opt eh of None \<Rightarrow> Some Restart | Some own \<Rightarrow> own))\<rparr>\<rparr>"

definition log_info :: "string \<Rightarrow> manager \<Rightarrow> manager" where
  "log_info msg m = m\<lparr>events := events m @ [Log_info msg]\<rparr>"

definition log_warn :: "string \<Rightarrow> manager \<Rightarrow> manager" where
  "log_warn msg m = m\<lparr>events := events m @ [Log_warn msg]\<rparr>"

definition log_error :: "string \<Rightarrow> caught \<Rightarrow> manager \<Rightarrow> manager" where
  "log_error msg err m = m\<lparr>events := events m @ [Log_error msg err]\<rparr>"

text \<open>
  All operations of the manager that can throw return the thrown error or \<open>()\<close>, together
  with the state they leave. \<open>now\<close> is the value of \<open>Date.now()\<close> at the call.
\<close>

definition registerPlugin ::
  "string \<Rightarrow> plugin \<Rightarrow> plugin_config_opt \<Rightarrow> int \<Rightarrow> manager \<Rightarrow> (eliza_error + unit) \<times> manager"
where
  "registerPlugin name p cfg now m =
     (case validatePluginConfig name cfg m of
        Inl e \<Rightarrow> (Inl e, m)
      | Inr u \<Rightarrow>
          (let normalizedConfig = normalizeConfig cfg;
               m1 = m\<lparr>plugins := map_set name
                      \<lparr>plugin = p, config = normalizedConfig, isInitialized = False,
                       entry_metrics = \<lparr>lastHeartbeat = now, errorCount = 0, warningCount = 0\<rparr>\<rparr>
                      (plugins m)\<rparr>;
               m2 = (if config_dependencies normalizedConfig \<noteq> []
                     then m1\<lparr>dependencies := map_set name
                            (set_from_array (config_dependencies normalizedConfig))
                            (dependencies m1)\<rparr>
                     else m1)
           in (Inr (), log_info (''Registered plugin: '' @ name) m2)))"

section \<open>Initialization\<close>

text \<open>
  The entry is an object shared between the map and the running operation; a change of one of
  its fields is a change of the entry stored under its name.
\<close>

definition update_entry :: "string \<Rightarrow> (plugin_entry \<Rightarrow> plugin_entry) \<Rightarrow> manager \<Rightarrow> manager" where
  "update_entry name f m =
     m\<lparr>plugins := map (\<lambda>(k, e). if k = name then (k, f e) else (k, e)) (plugins m)\<rparr>"

definition wait :: "int \<Rightarrow> manager \<Rightarrow> manager" where
  "wait ms m = m\<lparr>events := events m @ [Wait ms]\<rparr>"

text \<open>
  One call of \<open>plugin.initialize\<close>: the behaviour of this call, the plugin after it, and
  the state with the call recorded.
\<close>

definition call_initialize :: "string \<Rightarrow> plugin \<Rightarrow> manager \<Rightarrow> settle \<times> plugin \<times> manager" where
  "call_initialize name p m =
     (let p' = p\<lparr>initialize_count := Suc (initialize_count p)\<rparr>
      in (next_initialize p 0, p',
          update_entry name (\<lambda>e. e\<lparr>plugin := p'\<rparr>)
            (m\<lparr>events := events m @ [Call_initialize name]\<rparr>)))"

text \<open>\<open>Promise.race\<close> of the call against the timer of \<open>timeoutMs\<close>.\<close>

fun race_timeout :: "settle \<Rightarrow> outcome" where
  "race_timeout Resolves = Resolved"
| "race_timeout (Rejects v) = Rejected v"
| "race_timeout Pending = Rejected (Error_instance ''Initialization timeout'')"

text \<open>\<open>error instanceof Error ? error : new Error(String(error))\<close>\<close>

fun as_Error :: "js_value \<Rightarrow> js_value" where
  "as_Error (Error_instance msg) = Error_instance msg"
| "as_Error (Non_error v) = Error_instance v"

text \<open>
  Numbers inside a template literal. \<open>attempts\<close> is always an integer. The bound is printed
  as an integer when it is one, as \<open>undefined\<close> when it is that, and else with the digits of
  its fraction, at most 17 of them (JavaScript prints the shortest text that reads back as
  the same number).
\<close>

definition digit :: "nat \<Rightarrow> char" where
  "digit d = ''0123456789'' ! d"

fun decimal :: "nat \<Rightarrow> string" where
  "decimal n = (if 10 \<le> n then decimal (n div 10) @ [digit (n mod 10)] else [digit n])"

definition number_to_string :: "int \<Rightarrow> string" where
  "number_to_string i = (if 0 \<le> i then decimal (nat i) else CHR ''-'' # decimal (nat (- i)))"

fun fraction_digits :: "nat \<Rightarrow> rat \<Rightarrow> string" where
  "fraction_digits 0 r = []"
| "fraction_digits (Suc k) r =
     (if r = 0 then []
      else digit (nat \<lfloor>10 * r\<rfloor>) # fraction_digits k (10 * r - of_int \<lfloor>10 * r\<rfloor>))"

definition bound_to_string :: "number option \<Rightarrow> string" where
  "bound_to_string b =
     (case b of
        None \<Rightarrow> ''undefined''
      | Some x \<Rightarrow>
          if x = of_int \<lfloor>x\<rfloor> then number_to_string \<lfloor>x\<rfloor>
          else (if x < 0 then ''-'' else []) @ decimal (nat \<lfloor>\<bar>x\<bar>\<rfloor>) @ ''.'' @
               fraction_digits 17 (\<bar>x\<bar> - of_int \<lfloor>\<bar>x\<bar>\<rfloor>))"

text \<open>
  \<open>attempts < retryAttempts\<close> and \<open>attempts === retryAttempts\<close>: both are false when the bound
  is \<open>undefined\<close>, and the second is false for every bound that is not an integer.
\<close>

definition less_than_bound :: "int \<Rightarrow> number option \<Rightarrow> bool" where
  "less_than_bound attempts b = (case b of None \<Rightarrow> False | Some x \<Rightarrow> of_int attempts < x)"

definition equals_bound :: "int \<Rightarrow> number option \<Rightarrow> bool" where
  "equals_bound attempts b = (case b of None \<Rightarrow> False | Some x \<Rightarrow> of_int attempts = x)"

text \<open>An upper bound of the attempts still to come, by which the loop ends.\<close>

definition attempts_left :: "number option \<Rightarrow> int \<Rightarrow> nat" where
  "attempts_left b attempts = (case b of None \<Rightarrow> 0 | Some x \<Rightarrow> nat (\<lceil>x\<rceil> - attempts))"

definition plugin_not_found_error :: "string \<Rightarrow> eliza_error" where
  "plugin_not_found_error name =
     \<lparr>message = ''Plugin not found: '' @ name, code = PLUGIN_ERROR, cause = None,
      error_context = []\<rparr>"

definition initialization_failed_error :: "string \<Rightarrow> js_value \<Rightarrow> int \<Rightarrow> eliza_error" where
  "initialization_failed_error name error attempts =
     \<lparr>message = ''Failed to initialize plugin: '' @ name, code = PLUGIN_ERROR,
      cause = (if instanceof_Error error then Some error else None),
      error_context = [(''attempts'', Ctx_number attempts)]\<rparr>"

definition attempt_failed_message :: "int \<Rightarrow> number option \<Rightarrow> string \<Rightarrow> string" where
  "attempt_failed_message attempts retries name =
     ''Plugin initialization failed (attempt '' @ number_to_string attempts @ ''/'' @
     bound_to_string retries @ ''): '' @ name"

definition increment_errorCount :: "plugin_entry \<Rightarrow> plugin_entry" where
  "increment_errorCount e =
     e\<lparr>entry_metrics := (entry_metrics e)\<lparr>errorCount := errorCount (entry_metrics e) + 1\<rparr>\<rparr>"

text \<open>
  The \<open>while\<close> loop of \<open>initializePlugin\<close>, with \<open>plugin\<close> and \<open>retryAttempts\<close> read from
  the entry before the loop and the counter \<open>attempts\<close>.
\<close>

function attempt_loop ::
  "string \<Rightarrow> plugin \<Rightarrow> number option \<Rightarrow> int \<Rightarrow> manager \<Rightarrow> (eliza_error + unit) \<times> manager"
where
  "attempt_loop name p retries attempts m =
     (if less_than_bound attempts retries then
        (case call_initialize name p m of
           (r, p', m1) \<Rightarrow>
             (case race_timeout r of
                Resolved \<Rightarrow>
                  (Inr (),
                   log_info (''Initialized plugin: '' @ name)
                     (update_entry name (\<lambda>e. e\<lparr>isInitialized := True\<rparr>) m1))
              | Rejected error \<Rightarrow>
                  (let attempts' = attempts + 1;
                       m2 = update_entry name increment_errorCount m1;
                       m3 = log_error (attempt_failed_message attempts' retries name)
                              (From_plugin (as_Error error)) m2
                   in if equals_bound attempts' retries
                      then (Inl (initialization_failed_error name error attempts'), m3)
                      else attempt_loop name p' retries attempts' (wait (1000 * attempts') m3))))
      else (Inr (), m))"
  by pat_completeness auto

termination
proof (relation "measure (\<lambda>(name, p, retries, attempts, m). attempts_left retries attempts)",
    goal_cases)
  case 1
  show ?case by simp
next
  case (2 name p retries attempts m x y xa ya x2 xb xc xd)
  from 2(1) obtain b where b: "retries = Some b" "of_int attempts < b"
    by (auto simp: less_than_bound_def split: option.splits)
  then have "attempts < \<lceil>b\<rceil>" by (simp add: less_ceiling_iff)
  then show ?case using b 2 by (simp add: attempts_left_def)
qed

definition initializePlugin :: "string \<Rightarrow> manager \<Rightarrow> (eliza_error + unit) \<times> manager" where
  "initializePlugin name m =
     (case get_entry m name of
        None \<Rightarrow> (Inl (plugin_not_found_error name), m)
      | Some entry \<Rightarrow>
          attempt_loop name (plugin entry) (retryAttempts (config_errorHandling (config entry))) 0 m)"

fun initialize_each :: "string list \<Rightarrow> manager \<Rightarrow> (eliza_error + unit) \<times> manager" where
  "initialize_each [] m = (Inr (), m)"
| "initialize_each (pluginName # rest) m =
     (case initializePlugin pluginName m of
        (Inl e, m') \<Rightarrow> (Inl e, m')
      | (Inr u, m') \<Rightarrow> initialize_each rest m')"

definition initializePlugins :: "manager \<Rightarrow> (eliza_error + unit) \<times> manager" where
  "initializePlugins m =
     (case resolveInitializationOrder m of
        Inl e \<Rightarrow> (Inl e, m)
      | Inr initOrder \<Rightarrow> initialize_each initOrder m)"

section \<open>Recovery\<close>

text \<open>
  \<open>await entry.plugin.destroy?.()\<close>: an absent \<open>destroy\<close> is no call and continues; a
  present one is called and its promise awaited.
\<close>

definition call_destroy :: "string \<Rightarrow> plugin_entry \<Rightarrow> manager \<Rightarrow> outcome \<times> manager" where
  "call_destroy name entry m =
     (case destroy (plugin entry) of
        None \<Rightarrow> (Resolved, m)
      | Some d \<Rightarrow>
          (d (destroy_count (plugin entry)),
           update_entry name
             (\<lambda>e. e\<lparr>plugin := (plugin e)\<lparr>destroy_count := Suc (destroy_count (plugin e))\<rparr>\<rparr>)
             (m\<lparr>events := events m @ [Call_destroy name]\<rparr>)))"

text \<open>
  \<open>this.plugins.get(name)!\<close> is \<open>undefined\<close> for an unknown name; reading \<open>entry.plugin\<close>
  inside the \<open>try\<close> then throws a \<open>TypeError\<close>, which the \<open>catch\<close> logs.
\<close>

definition undefined_entry_error :: js_value where
  "undefined_entry_error =
     Error_instance ''Cannot read properties of undefined (reading 'plugin')''"

definition restartPlugin :: "string \<Rightarrow> manager \<Rightarrow> (eliza_error + unit) \<times> manager" where
  "restartPlugin name m =
     (let m0 = log_info (''Restarting plugin: '' @ name) m
      in case get_entry m0 name of
           None \<Rightarrow>
             (Inr (), log_error (''Plugin restart failed: '' @ name)
                        (From_plugin undefined_entry_error) m0)
         | Some entry \<Rightarrow>
             (case call_destroy name entry m0 of
                (Rejected error, m1) \<Rightarrow>
                  (Inr (), log_error (''Plugin restart failed: '' @ name) (From_plugin error) m1)
              | (Resolved, m1) \<Rightarrow>
                  (case initializePlugin name
                          (update_entry name (\<lambda>e. e\<lparr>isInitialized := False\<rparr>) m1) of
                     (Inl error, m2) \<Rightarrow>
                       (Inr (), log_error (''Plugin restart failed: '' @ name)
                                  (From_manager error) m2)
                   | (Inr u, m2) \<Rightarrow> (Inr (), m2))))"

definition failoverPlugin :: "string \<Rightarrow> manager \<Rightarrow> (eliza_error + unit) \<times> manager" where
  "failoverPlugin name m = (Inr (), log_info (''Failover initiated for plugin: '' @ name) m)"

definition terminatePlugin :: "string \<Rightarrow> manager \<Rightarrow> (eliza_error + unit) \<times> manager" where
  "terminatePlugin name m =
     (let m0 = log_info (''Terminating plugin: '' @ name) m
      in case get_entry m0 name of
           None \<Rightarrow>
             (Inr (), log_error (''Plugin termination failed: '' @ name)
                        (From_plugin undefined_entry_error) m0)
         | Some entry \<Rightarrow>
             (case call_destroy name entry m0 of
                (Rejected error, m1) \<Rightarrow>
                  (Inr (), log_error (''Plugin termination failed: '' @ name)
                             (From_plugin error) m1)
              | (Resolved, m1) \<Rightarrow>
                  (Inr (), m1\<lparr>plugins := map_delete name (plugins m1),
                              dependencies := map_delete name (dependencies m1)\<rparr>)))"

text \<open>The \<open>switch\<close> has no default: an \<open>undefined\<close> strategy matches no case.\<close>

definition handlePluginFailure ::
  "string \<Rightarrow> plugin_entry \<Rightarrow> manager \<Rightarrow> (eliza_error + unit) \<times> manager"
where
  "handlePluginFailure name entry m =
     (case recoveryStrategy (config_errorHandling (config entry)) of
        None \<Rightarrow> (Inr (), m)
      | Some Restart \<Rightarrow> restartPlugin name m
      | Some Failover \<Rightarrow> failoverPlugin name m
      | Some Terminate \<Rightarrow> terminatePlugin name m)"

section \<open>Health monitoring\<close>

text \<open>
  The body of the interval callback for one entry, at time \<open>now\<close>. The callback does not
  await \<open>handlePluginFailure\<close>; the recovery it starts is taken here to run to its end before
  the callback looks at the next entry. An entry removed by then is skipped, as the iterator
  of the map does.
\<close>

definition check_plugin :: "int \<Rightarrow> string \<Rightarrow> manager \<Rightarrow> manager" where
  "check_plugin now name m =
     (case get_entry m name of
        None \<Rightarrow> m
      | Some entry \<Rightarrow>
          (let elapsed = now - lastHeartbeat (entry_metrics entry);
               m1 = (if elapsed > 30000
                     then log_warn (''Plugin heartbeat timeout: '' @ name) m
                     else m)
           in if errorCount (entry_metrics entry) > 10
              then snd (handlePluginFailure name entry m1)
              else m1))"

definition health_check :: "int \<Rightarrow> manager \<Rightarrow> manager" where
  "health_check now m = foldl (\<lambda>m' name. check_plugin now name m') m (keys m)"

text \<open>
  The constructor leaves both maps empty and starts the interval: with the manager created at
  time \<open>created\<close>, the callback runs at \<open>created + 10000 * k\<close> for \<open>k = 1, 2, ...\<close>.
  \<open>advance_timers\<close> runs the callbacks that fall due when the clock goes from \<open>start\<close> to
  \<open>until\<close>.
\<close>

definition new_manager :: manager where
  "new_manager = \<lparr>plugins = [], dependencies = [], events = []\<rparr>"

definition tick_times :: "int \<Rightarrow> int \<Rightarrow> int \<Rightarrow> int list" where
  "tick_times created start until =
     filter (\<lambda>t. start < t)
       (map (\<lambda>k. created + 10000 * int k) [1..<Suc (nat ((until - created) div 10000))])"

definition advance_timers :: "int \<Rightarrow> int \<Rightarrow> int \<Rightarrow> manager \<Rightarrow> manager" where
  "advance_timers created start until m =
     foldl (\<lambda>m' t. health_check t m') m (tick_times created start until)"

section \<open>Notions used in the statements\<close>

text \<open>
  The dependency relation: \<open>(n, d)\<close> when the dependency map gives \<open>n\<close> a set that holds
  \<open>d\<close>; and the same restricted to registered ids.
\<close>

definition dep_edges :: "manager \<Rightarrow> (string \<times> string) list" where
  "dep_edges m =
     concat (map (\<lambda>n. case get_dependencies m n of
                         None \<Rightarrow> []
                       | Some deps \<Rightarrow> map (Pair n) deps)
                 (map fst (dependencies m)))"

definition dep_rel :: "manager \<Rightarrow> (string \<times> string) set" where
  "dep_rel m = set (dep_edges m)"

definition registered_rel :: "manager \<Rightarrow> (string \<times> string) set" where
  "registered_rel m = dep_rel m \<inter> set (keys m) \<times> set (keys m)"

text \<open>\<open>a\<close> stands in \<open>xs\<close> before the first \<open>b\<close>, and \<open>b\<close> is in \<open>xs\<close>.\<close>

definition appears_before :: "'a \<Rightarrow> 'a \<Rightarrow> 'a list \<Rightarrow> bool" where
  "appears_before a b xs \<longleftrightarrow> b \<in> set xs \<and> a \<in> set (takeWhile (\<lambda>y. y \<noteq> b) xs)"

text \<open>A sequence of registered ids, each depending on the next.\<close>

definition dep_walk :: "manager \<Rightarrow> string list \<Rightarrow> bool" where
  "dep_walk m xs = successively (\<lambda>a b. (a, b) \<in> registered_rel m) xs"

text \<open>
  The invariant of the walk: \<open>visited\<close> and \<open>initOrder\<close> hold the same ids, each once and
  registered, and every dependency of an id in \<open>initOrder\<close> is registered and stands before it.
\<close>

definition walk_inv :: "manager \<Rightarrow> walk_state \<Rightarrow> bool" where
  "walk_inv m s \<longleftrightarrow>
     set (fst s) = set (snd s) \<and> distinct (snd s) \<and> set (snd s) \<subseteq> set (keys m) \<and>
     (\<forall>x\<in>set (snd s). \<forall>d. (x, d) \<in> dep_rel m \<longrightarrow> d \<in> set (keys m) \<and> appears_before d x (snd s))"

text \<open>
  What an error of the walk says: a registered plugin with an unregistered dependency, or a
  path that ends in a cycle of the dependency relation.
\<close>

definition explained :: "manager \<Rightarrow> eliza_error \<Rightarrow> bool" where
  "explained m e \<longleftrightarrow>
     (\<exists>d n. e = missing_dependency_error d n \<and> n \<in> set (keys m) \<and> (n, d) \<in> dep_rel m \<and>
            d \<notin> set (keys m)) \<or>
     (\<exists>pre x cyc. e = circular_dependency_error (pre @ x # cyc @ [x]) \<and>
            dep_walk m (x # cyc @ [x]))"

text \<open>Observations on a state.\<close>

definition initialize_calls :: "manager \<Rightarrow> string \<Rightarrow> nat" where
  "initialize_calls m name = count_list (events m) (Call_initialize name)"

definition waits :: "manager \<Rightarrow> int list" where
  "waits m = concat (map (\<lambda>ev. case ev of Wait ms \<Rightarrow> [ms] | _ \<Rightarrow> []) (events m))"

definition warnings :: "manager \<Rightarrow> string list" where
  "warnings m = concat (map (\<lambda>ev. case ev of Log_warn msg \<Rightarrow> [msg] | _ \<Rightarrow> []) (events m))"

definition error_count :: "manager \<Rightarrow> string \<Rightarrow> int option" where
  "error_count m name = map_option (\<lambda>e. errorCount (entry_metrics e)) (get_entry m name)"

definition is_initialized :: "manager \<Rightarrow> string \<Rightarrow> bool" where
  "is_initialized m name = (case get_entry m name of None \<Rightarrow> False | Some e \<Rightarrow> isInitialized e)"

text \<open>The outcome of the attempt that makes the \<open>i\<close>-th coming call of \<open>initialize\<close>.\<close>

definition attempt_outcome :: "plugin_entry \<Rightarrow> nat \<Rightarrow> outcome" where
  "attempt_outcome entry i = race_timeout (next_initialize (plugin entry) i)"

text \<open>What awaiting \<open>destroy?.()\<close> of the entry under \<open>name\<close> gives.\<close>

definition destroy_outcome :: "manager \<Rightarrow> string \<Rightarrow> outcome option" where
  "destroy_outcome m name =
     map_option
       (\<lambda>e. case destroy (plugin e) of
              None \<Rightarrow> Resolved
            | Some d \<Rightarrow> d (destroy_count (plugin e)))
       (get_entry m name)"

text \<open>
  What a call of \<open>initializePlugin name\<close> may change: the keys, the dependency map and the
  configurations stay, entries and calls of other names stay, no \<open>isInitialized\<close> is reset, no
  \<open>errorCount\<close> goes down, and events are only added.
\<close>

definition init_frame :: "string \<Rightarrow> manager \<Rightarrow> manager \<Rightarrow> bool" where
  "init_frame name m m' \<longleftrightarrow>
     keys m' = keys m \<and> dependencies m' = dependencies m \<and>
     (\<forall>k. k \<noteq> name \<longrightarrow> get_entry m' k = get_entry m k) \<and>
     (\<forall>k. k \<noteq> name \<longrightarrow> initialize_calls m' k = initialize_calls m k) \<and>
     (\<forall>k. is_initialized m k \<longrightarrow> is_initialized m' k) \<and>
     (\<forall>k c. error_count m k = Some c \<longrightarrow> (\<exists>c'. error_count m' k = Some c' \<and> c \<le> c')) \<and>
     (\<exists>new. events m' = events m @ new) \<and>
     (\<forall>k. map_option config (get_entry m' k) = map_option config (get_entry m k))"


text \<open>
  The operations of the manager, public and private, and the callback of the interval; a
  history of the manager is a list of them.
\<close>

datatype operation =
    Op_registerPlugin string plugin plugin_config_opt int
  | Op_initializePlugins
  | Op_initializePlugin string
  | Op_restartPlugin string
  | Op_failoverPlugin string
  | Op_terminatePlugin string
  | Op_health_check int

fun perform :: "operation \<Rightarrow> manager \<Rightarrow> manager" where
  "perform (Op_registerPlugin name p cfg now) m = snd (registerPlugin name p cfg now m)"
| "perform Op_initializePlugins m = snd (initializePlugins m)"
| "perform (Op_initializePlugin name) m = snd (initializePlugin name m)"
| "perform (Op_restartPlugin name) m = snd (restartPlugin name m)"
| "perform (Op_failoverPlugin name) m = snd (failoverPlugin name m)"
| "perform (Op_terminatePlugin name) m = snd (terminatePlugin name m)"
| "perform (Op_health_check now) m = health_check now m"

fun perform_all :: "operation list \<Rightarrow> manager \<Rightarrow> manager" where
  "perform_all [] m = m"
| "perform_all (op # ops) m = perform_all ops (perform op m)"

text \<open>\<open>name\<close> is registered after every operation of the list.\<close>

fun stays_registered :: "string \<Rightarrow> operation list \<Rightarrow> manager \<Rightarrow> bool" where
  "stays_registered name [] m = True"
| "stays_registered name (op # ops) m =
     (has (perform op m) name \<and> stays_registered name ops (perform op m))"

text \<open>The line each recovery strategy logs first.\<close>

definition recovery_started :: "recovery_strategy \<Rightarrow> string \<Rightarrow> event" where
  "recovery_started strategy name =
     (case strategy of
        Restart \<Rightarrow> Log_info (''Restarting plugin: '' @ name)
      | Failover \<Rightarrow> Log_info (''Failover initiated for plugin: '' @ name)
      | Terminate \<Rightarrow> Log_info (''Terminating plugin: '' @ name))"

definition configured_strategy :: "manager \<Rightarrow> string \<Rightarrow> recovery_strategy option option" where
  "configured_strategy m name =
     map_option (\<lambda>e. recoveryStrategy (config_errorHandling (config e))) (get_entry m name)"

text \<open>
  A step from \<open>m\<close> to \<open>m'\<close> that registers nothing, touches only the entries of \<open>names\<close>,
  lowers no \<open>errorCount\<close> and only adds events.
\<close>

definition monotone_step :: "string set \<Rightarrow> manager \<Rightarrow> manager \<Rightarrow> bool" where
  "monotone_step names m m' \<longleftrightarrow>
     set (keys m') \<subseteq> set (keys m) \<and>
     (\<forall>k. k \<notin> names \<longrightarrow> get_entry m' k = get_entry m k) \<and>
     (\<forall>k c c'. error_count m k = Some c \<longrightarrow> error_count m' k = Some c' \<longrightarrow> c \<le> c') \<and>
     (\<exists>new. events m' = events m @ new)"

section \<open>Examples\<close>

text \<open>
  Managers built with \<open>registerPlugin\<close> from the empty one, with plugins in the manner of the
  mock of the test suite (\<open>initialize\<close> and \<open>destroy\<close> resolve).
\<close>

definition mock_plugin :: plugin where
  "mock_plugin =
     \<lparr>initialize = (\<lambda>k. Resolves), destroy = Some (\<lambda>k. Resolved),
      initialize_count = 0, destroy_count = 0\<rparr>"

definition no_config :: plugin_config_opt where
  "no_config = \<lparr>metadata_opt = None, dependencies_opt = None, options_opt = None,
                 errorHandling_opt = None\<rparr>"

definition depends_on :: "string list \<Rightarrow> plugin_config_opt" where
  "depends_on deps = no_config\<lparr>dependencies_opt := Some deps\<rparr>"

definition register :: "string \<Rightarrow> plugin \<Rightarrow> plugin_config_opt \<Rightarrow> manager \<Rightarrow> manager" where
  "register name p cfg m = snd (registerPlugin name p cfg 0 m)"

definition chain_manager :: manager where
  "chain_manager =
     register ''plugin-a'' mock_plugin (depends_on [''plugin-b''])
       (register ''plugin-b'' mock_plugin (depends_on [''plugin-c''])
          (register ''plugin-c'' mock_plugin no_config new_manager))"

definition cycle_behind_missing :: manager where
  "cycle_behind_missing =
     register ''b'' mock_plugin (depends_on [''a''])
       (register ''a'' mock_plugin (depends_on [''zz'', ''b'']) new_manager)"

definition missing_behind_cycle :: manager where
  "missing_behind_cycle =
     register ''b'' mock_plugin (depends_on [''a'', ''zz''])
       (register ''a'' mock_plugin (depends_on [''b'']) new_manager)"

definition two_cycle :: manager where
  "two_cycle =
     register ''b'' mock_plugin (depends_on [''a''])
       (register ''a'' mock_plugin (depends_on [''b'']) new_manager)"

definition missing_only :: manager where
  "missing_only =
     register ''plugin-a'' mock_plugin (depends_on [''plugin-b'']) new_manager"

text \<open>
  Plugins whose \<open>initialize\<close> fails twice and then resolves, always fails, or rejects with a
  string; a plugin whose \<open>destroy\<close> fails; and managers holding them.
\<close>

definition flaky_plugin :: plugin where
  "flaky_plugin =
     \<lparr>initialize = (\<lambda>k. if k < 2 then Rejects (Error_instance ''attempt failed'') else Resolves),
      destroy = Some (\<lambda>k. Resolved), initialize_count = 0, destroy_count = 0\<rparr>"

definition failing_plugin :: plugin where
  "failing_plugin =
     \<lparr>initialize = (\<lambda>k. Rejects (Error_instance ''Critical failure'')),
      destroy = Some (\<lambda>k. Resolved), initialize_count = 0, destroy_count = 0\<rparr>"

definition string_rejecting_plugin :: plugin where
  "string_rejecting_plugin =
     \<lparr>initialize = (\<lambda>k. Rejects (Non_error ''boom'')), destroy = Some (\<lambda>k. Resolved),
      initialize_count = 0, destroy_count = 0\<rparr>"

definition with_retries :: "number option \<Rightarrow> plugin_config_opt" where
  "with_retries own =
     no_config\<lparr>errorHandling_opt :=
       Some \<lparr>retryAttempts_opt = Some own, timeoutMs_opt = None, recoveryStrategy_opt = None\<rparr>\<rparr>"

definition flaky_manager :: manager where
  "flaky_manager = register ''failing-plugin'' flaky_plugin no_config new_manager"

definition failing_manager :: manager where
  "failing_manager = register ''failing-plugin'' failing_plugin no_config new_manager"

definition no_attempts_manager :: manager where
  "no_attempts_manager = register ''failing-plugin'' failing_plugin (with_retries (Some 0)) new_manager"

definition string_rejecting_manager :: manager where
  "string_rejecting_manager =
     register ''failing-plugin'' string_rejecting_plugin (with_retries (Some 1)) new_manager"

definition cleanup_failing_plugin :: plugin where
  "cleanup_failing_plugin =
     \<lparr>initialize = (\<lambda>k. Resolves),
      destroy = Some (\<lambda>k. Rejected (Error_instance ''Cleanup failed'')),
      initialize_count = 0, destroy_count = 0\<rparr>"

definition cleanup_failing_manager :: manager where
  "cleanup_failing_manager =
     snd (initializePlugins
            (register ''failing-plugin'' cleanup_failing_plugin no_config new_manager))"

definition initialized_manager :: manager where
  "initialized_manager =
     snd (initializePlugins (register ''test-plugin'' mock_plugin no_config new_manager))"


definition fractional_manager :: manager where
  "fractional_manager =
     register ''failing-plugin'' failing_plugin (with_retries (Some (5 / 2))) new_manager"

definition undefined_retries_manager :: manager where
  "undefined_retries_manager =
     register ''failing-plugin'' failing_plugin (with_retries None) new_manager"

text \<open>
  A plugin that never initializes, with eleven attempts and the failover strategy, after
  \<open>initializePlugins\<close> has given up on it.
\<close>

definition failover_after :: "number \<Rightarrow> plugin_config_opt" where
  "failover_after n =
     no_config\<lparr>errorHandling_opt :=
       Some \<lparr>retryAttempts_opt = Some (Some n), timeoutMs_opt = None,
             recoveryStrategy_opt = Some (Some Failover)\<rparr>\<rparr>"

definition overloaded_manager :: manager where
  "overloaded_manager =
     snd (initializePlugins
            (register ''failing-plugin'' failing_plugin (failover_after 11) new_manager))"

section \<open>Properties of the dependency walk\<close>

lemma dep_rel_iff:
  "(n, d) \<in> dep_rel m \<longleftrightarrow> (\<exists>deps. get_dependencies m n = Some deps \<and> d \<in> set deps)"
proof
  assume "(n, d) \<in> dep_rel m"
  then obtain k where "(n, d) \<in> set (case get_dependencies m k of None \<Rightarrow> [] | Some deps \<Rightarrow> map (Pair k) deps)"
    unfolding dep_rel_def dep_edges_def by auto
  then show "\<exists>deps. get_dependencies m n = Some deps \<and> d \<in> set deps"
    by (cases "get_dependencies m k") auto
next
  assume "\<exists>deps. get_dependencies m n = Some deps \<and> d \<in> set deps"
  then obtain deps where d: "get_dependencies m n = Some deps" "d \<in> set deps" by blast
  then obtain v where v: "(n, v) \<in> set (dependencies m)"
    unfolding get_dependencies_def by (meson map_of_SomeD)
  show "(n, d) \<in> dep_rel m"
    unfolding dep_rel_def dep_edges_def using d v
    by (auto intro!: bexI[of _ "(n, v)"])
qed

lemma appears_before_snoc_old:
  "y \<in> set xs \<Longrightarrow> appears_before d y (xs @ [x]) \<longleftrightarrow> appears_before d y xs"
  by (simp add: appears_before_def takeWhile_append1[of y xs])

lemma appears_before_snoc_new:
  "x \<notin> set xs \<Longrightarrow> appears_before d x (xs @ [x]) \<longleftrightarrow> d \<in> set xs"
  by (auto simp: appears_before_def takeWhile_append)

lemma appears_before_append_old:
  "y \<in> set xs \<Longrightarrow> appears_before d y (xs @ ys) \<longleftrightarrow> appears_before d y xs"
  by (simp add: appears_before_def takeWhile_append1[of y xs])

lemma appears_before_trans:
  assumes "appears_before a c xs" "appears_before c b xs"
  shows "appears_before a b xs"
  using assms unfolding appears_before_def
  by (induction xs) (auto split: if_splits)

lemma appears_before_neq: "appears_before a b xs \<Longrightarrow> a \<noteq> b"
  unfolding appears_before_def by (auto dest: set_takeWhileD)

lemma appears_before_in: "appears_before a b xs \<Longrightarrow> a \<in> set xs \<and> b \<in> set xs"
  unfolding appears_before_def by (auto dest: set_takeWhileD)

lemma appears_before_rank:
  "appears_before a b xs \<Longrightarrow>
     length (takeWhile (\<lambda>y. y \<noteq> a) xs) < length (takeWhile (\<lambda>y. y \<noteq> b) xs)"
  unfolding appears_before_def
  by (induction xs) (auto split: if_splits)

lemma walk_inv_snoc:
  assumes inv: "walk_inv m s" and ext: "snd s1 = snd s @ new" and inv1: "walk_inv m s1"
    and fresh: "name \<notin> set (snd s1)" and key: "name \<in> set (keys m)"
    and deps: "\<And>d. (name, d) \<in> dep_rel m \<Longrightarrow> d \<in> set (snd s1)"
  shows "walk_inv m (fst s1 @ [name], snd s1 @ [name])"
  unfolding walk_inv_def
proof (intro conjI ballI allI impI)
  show "set (fst (fst s1 @ [name], snd s1 @ [name])) = set (snd (fst s1 @ [name], snd s1 @ [name]))"
    using inv1 by (simp add: walk_inv_def)
  show "distinct (snd (fst s1 @ [name], snd s1 @ [name]))"
    using inv1 fresh by (simp add: walk_inv_def)
  show "set (snd (fst s1 @ [name], snd s1 @ [name])) \<subseteq> set (keys m)"
    using inv1 key by (simp add: walk_inv_def)
next
  fix x d
  assume x: "x \<in> set (snd (fst s1 @ [name], snd s1 @ [name]))" and e: "(x, d) \<in> dep_rel m"
  show "d \<in> set (keys m)"
  proof (cases "x = name")
    case True
    then show ?thesis using deps[of d] e inv1 by (auto simp: walk_inv_def)
  next
    case False
    then show ?thesis using x e inv1 by (auto simp: walk_inv_def)
  qed
  show "appears_before d x (snd (fst s1 @ [name], snd s1 @ [name]))"
  proof (cases "x = name")
    case True
    then show ?thesis using deps[of d] e fresh by (simp add: appears_before_snoc_new)
  next
    case False
    then have "x \<in> set (snd s1)" using x by simp
    then show ?thesis using e inv1 by (simp add: appears_before_snoc_old walk_inv_def)
  qed
qed

lemma visit_success:
  "walk_inv m s \<Longrightarrow> name \<in> set (keys m) \<Longrightarrow> visit m name path s = Inr s' \<Longrightarrow>
     walk_inv m s' \<and> name \<in> set (snd s') \<and> (\<exists>new. snd s' = snd s @ new \<and> set new \<inter> set path = {})"
  "walk_inv m s \<Longrightarrow> visit_deps m name deps path s = Inr s' \<Longrightarrow>
     walk_inv m s' \<and> set deps \<subseteq> set (snd s') \<and> (\<exists>new. snd s' = snd s @ new \<and> set new \<inter> set path = {})"
proof (induction m name path s and m name deps path s arbitrary: s' and s'
    rule: visit_visit_deps.induct)
  case (1 m name path s)
  from "1.prems"(3) have notin: "name \<notin> set path" by (auto split: if_splits)
  show ?case
  proof (cases "name \<in> set (fst s)")
    case True
    then have "s' = s" using "1.prems"(3) notin by simp
    then show ?thesis using True "1.prems"(1) by (auto simp: walk_inv_def)
  next
    case False
    show ?thesis
    proof (cases "get_dependencies m name")
      case None
      then have s': "s' = (fst s @ [name], snd s @ [name])"
        using "1.prems"(3) notin False by simp
      have "walk_inv m (fst s @ [name], snd s @ [name])"
      proof (rule walk_inv_snoc[OF "1.prems"(1) _ "1.prems"(1)])
        show "snd s = snd s @ []" by simp
        show "name \<notin> set (snd s)" using False "1.prems"(1) by (simp add: walk_inv_def)
        show "name \<in> set (keys m)" by fact
        show "\<And>d. (name, d) \<in> dep_rel m \<Longrightarrow> d \<in> set (snd s)"
          using None by (simp add: dep_rel_iff)
      qed
      then show ?thesis using s' notin by simp
    next
      case (Some deps)
      then obtain s1 where s1: "visit_deps m name deps (path @ [name]) s = Inr s1"
        and s': "s' = (fst s1 @ [name], snd s1 @ [name])"
        using "1.prems"(3) notin False by (auto split: sum.splits)
      from "1.IH"[OF notin False Some "1.prems"(1) s1]
      obtain new where inv1: "walk_inv m s1" and sub: "set deps \<subseteq> set (snd s1)"
        and ext: "snd s1 = snd s @ new" and disj: "set new \<inter> set (path @ [name]) = {}"
        by blast
      have fresh: "name \<notin> set (snd s1)"
        using ext disj False "1.prems"(1) by (auto simp: walk_inv_def)
      have "walk_inv m (fst s1 @ [name], snd s1 @ [name])"
      proof (rule walk_inv_snoc[OF "1.prems"(1) ext inv1 fresh "1.prems"(2)])
        show "\<And>d. (name, d) \<in> dep_rel m \<Longrightarrow> d \<in> set (snd s1)"
          using Some sub by (auto simp: dep_rel_iff)
      qed
      moreover have "snd s' = snd s @ (new @ [name])" using s' ext by simp
      moreover have "set (new @ [name]) \<inter> set path = {}" using disj notin by auto
      ultimately show ?thesis using s' by (metis in_set_conv_decomp snd_conv)
    qed
  qed
next
  case (2 m name path s)
  then show ?case by simp
next
  case (3 m name dep rest path s)
  from "3.prems"(2) have hasdep: "has m dep" by (auto split: if_splits)
  then obtain s1 where s1: "visit m dep path s = Inr s1"
    and rest: "visit_deps m name rest path s1 = Inr s'"
    using "3.prems"(2) by (auto split: sum.splits)
  from hasdep have key: "dep \<in> set (keys m)" by (simp add: has_def)
  from "3.IH"(1)[OF _ "3.prems"(1) key s1] hasdep
  obtain new1 where inv1: "walk_inv m s1" and in1: "dep \<in> set (snd s1)"
    and ext1: "snd s1 = snd s @ new1" and disj1: "set new1 \<inter> set path = {}"
    by blast
  from "3.IH"(2)[OF _ s1 inv1 rest] hasdep
  obtain new2 where inv2: "walk_inv m s'" and in2: "set rest \<subseteq> set (snd s')"
    and ext2: "snd s' = snd s1 @ new2" and disj2: "set new2 \<inter> set path = {}"
    by blast
  have "snd s' = snd s @ (new1 @ new2)" using ext1 ext2 by simp
  moreover have "set (new1 @ new2) \<inter> set path = {}" using disj1 disj2 by auto
  moreover have "set (dep # rest) \<subseteq> set (snd s')" using in1 in2 ext2 by auto
  ultimately show ?case using inv2 by blast
qed

lemma visit_failure:
  "dep_walk m (path @ [name]) \<Longrightarrow> name \<in> set (keys m) \<Longrightarrow> visit m name path s = Inl e \<Longrightarrow>
     explained m e"
  "dep_walk m path \<Longrightarrow> path \<noteq> [] \<Longrightarrow> last path = name \<Longrightarrow> name \<in> set (keys m) \<Longrightarrow>
     \<forall>d\<in>set deps. (name, d) \<in> dep_rel m \<Longrightarrow>
     visit_deps m name deps path s = Inl e \<Longrightarrow> explained m e"
proof (induction m name path s and m name deps path s rule: visit_visit_deps.induct)
  case (1 m name path s)
  show ?case
  proof (cases "name \<in> set path")
    case True
    then obtain pre cyc where path: "path = pre @ name # cyc" by (meson split_list)
    have e: "e = circular_dependency_error (pre @ name # cyc @ [name])"
      using "1.prems"(3) True path by simp
    have "dep_walk m (name # cyc @ [name])"
      using "1.prems"(1) unfolding path dep_walk_def
      by (simp add: successively_append_iff)
    with e show ?thesis unfolding explained_def by blast
  next
    case False
    then have nv: "name \<notin> set (fst s)" using "1.prems"(3) by (auto split: if_splits)
    then obtain deps where deps: "get_dependencies m name = Some deps"
      and fail: "visit_deps m name deps (path @ [name]) s = Inl e"
      using "1.prems"(3) False by (auto split: option.splits sum.splits)
    have "\<forall>d\<in>set deps. (name, d) \<in> dep_rel m" using deps by (auto simp: dep_rel_iff)
    from "1.IH"[OF False nv deps "1.prems"(1) _ _ "1.prems"(2) this fail]
    show ?thesis by simp
  qed
next
  case (2 m name path s)
  then show ?case by simp
next
  case (3 m name dep rest path s)
  show ?case
  proof (cases "has m dep")
    case False
    then have "e = missing_dependency_error dep name" using "3.prems"(6) by simp
    moreover have "(name, dep) \<in> dep_rel m" using "3.prems"(5) by simp
    ultimately show ?thesis using False "3.prems"(4) unfolding explained_def has_def by blast
  next
    case True
    then have key: "dep \<in> set (keys m)" by (simp add: has_def)
    have edge: "(name, dep) \<in> registered_rel m"
      using "3.prems"(4,5) key by (simp add: registered_rel_def)
    have walk: "dep_walk m (path @ [dep])"
      using "3.prems"(1,2,3) edge unfolding dep_walk_def
      by (simp add: successively_append_iff)
    show ?thesis
    proof (cases "visit m dep path s")
      case (Inl e')
      then have "e' = e" using "3.prems"(6) True by simp
      with "3.IH"(1)[OF _ walk key] True Inl show ?thesis by simp
    next
      case (Inr s1)
      then have "visit_deps m name rest path s1 = Inl e" using "3.prems"(6) True by simp
      with "3.IH"(2)[OF _ Inr "3.prems"(1,2,3,4)] True "3.prems"(5) show ?thesis by simp
    qed
  qed
qed

lemma dep_walk_trancl:
  "dep_walk m (x # ys @ [z]) \<Longrightarrow> (x, z) \<in> (registered_rel m)\<^sup>+"
  unfolding dep_walk_def
  by (induction ys arbitrary: x) (auto intro: trancl_into_trancl2)

lemma visit_all_success:
  "walk_inv m s \<Longrightarrow> set names \<subseteq> set (keys m) \<Longrightarrow> visit_all m names s = Inr s' \<Longrightarrow>
     walk_inv m s' \<and> set names \<subseteq> set (snd s') \<and> set (snd s) \<subseteq> set (snd s')"
proof (induction names arbitrary: s)
  case Nil
  then show ?case by simp
next
  case (Cons name names)
  then obtain s1 where s1: "visit m name [] s = Inr s1" and rest: "visit_all m names s1 = Inr s'"
    by (auto split: sum.splits)
  from visit_success(1)[OF Cons.prems(1) _ s1] Cons.prems(2)
  obtain new where inv1: "walk_inv m s1" and in1: "name \<in> set (snd s1)"
    and ext: "snd s1 = snd s @ new" by auto
  from Cons.IH[OF inv1 _ rest] Cons.prems(2)
  have "walk_inv m s'" "set names \<subseteq> set (snd s')" "set (snd s1) \<subseteq> set (snd s')" by auto
  then show ?case using in1 ext by auto
qed

lemma visit_all_failure:
  "set names \<subseteq> set (keys m) \<Longrightarrow> visit_all m names s = Inl e \<Longrightarrow> explained m e"
proof (induction names arbitrary: s)
  case Nil
  then show ?case by simp
next
  case (Cons name names)
  show ?case
  proof (cases "visit m name [] s")
    case (Inl e')
    then have "e' = e" using Cons.prems(2) by simp
    moreover have "dep_walk m ([] @ [name])" by (simp add: dep_walk_def)
    ultimately show ?thesis using visit_failure(1)[of m "[]" name s e] Inl Cons.prems(1) by simp
  next
    case (Inr s1)
    then show ?thesis using Cons by simp
  qed
qed

lemma walk_inv_init: "walk_inv m ([], [])"
  by (simp add: walk_inv_def)

lemma resolve_success:
  assumes "resolveInitializationOrder m = Inr order"
  shows "distinct order" and "set order = set (keys m)"
    and "\<And>x d. x \<in> set (keys m) \<Longrightarrow> (x, d) \<in> dep_rel m \<Longrightarrow>
           d \<in> set (keys m) \<and> appears_before d x order"
proof -
  from assms obtain s where s: "visit_all m (keys m) ([], []) = Inr s" and o: "order = snd s"
    by (auto simp: resolveInitializationOrder_def split: sum.splits)
  from visit_all_success[OF walk_inv_init _ s]
  have inv: "walk_inv m s" and all: "set (keys m) \<subseteq> set (snd s)" by auto
  show "distinct order" using inv o by (simp add: walk_inv_def)
  show eq: "set order = set (keys m)" using inv all o by (auto simp: walk_inv_def)
  fix x d assume "x \<in> set (keys m)" "(x, d) \<in> dep_rel m"
  then show "d \<in> set (keys m) \<and> appears_before d x order"
    using inv eq o by (auto simp: walk_inv_def)
qed

lemma resolve_failure:
  "resolveInitializationOrder m = Inl e \<Longrightarrow> explained m e"
  using visit_all_failure[of "keys m" m "([], [])" e]
  by (auto simp: resolveInitializationOrder_def split: sum.splits)

lemma resolve_success_acyclic:
  assumes "resolveInitializationOrder m = Inr order"
  shows "acyclic (registered_rel m)"
proof -
  let ?rank = "\<lambda>x. length (takeWhile (\<lambda>y. y \<noteq> x) order)"
  have "(registered_rel m)\<inverse> \<subseteq> measure ?rank"
  proof
    fix p assume "p \<in> (registered_rel m)\<inverse>"
    then obtain d x where p: "p = (d, x)" and e: "(x, d) \<in> registered_rel m" by auto
    then have "appears_before d x order"
      using resolve_success(3)[OF assms, of x d] by (simp add: registered_rel_def)
    then show "p \<in> measure ?rank" using p by (simp add: appears_before_rank)
  qed
  then have "wf ((registered_rel m)\<inverse>)" by (rule wf_subset[OF wf_measure])
  then show ?thesis using wf_acyclic acyclic_converse by blast
qed

lemma explained_acyclic:
  assumes "explained m e" "acyclic (registered_rel m)"
  shows "\<exists>d n. e = missing_dependency_error d n \<and> n \<in> set (keys m) \<and> (n, d) \<in> dep_rel m \<and>
            d \<notin> set (keys m)"
  using assms dep_walk_trancl unfolding explained_def acyclic_def by blast

lemma missing_not_circular:
  "missing_dependency_error d n \<noteq> circular_dependency_error ids"
  by (simp add: missing_dependency_error_def circular_dependency_error_def)

lemma trans_before:
  assumes "\<And>x d. x \<in> set order \<Longrightarrow> (x, d) \<in> R \<Longrightarrow> d \<in> set order \<and> appears_before d x order"
    and "(b, a) \<in> R\<^sup>+" "b \<in> set order"
  shows "appears_before a b order"
  using assms(2,3)
proof (induction rule: trancl_induct)
  case (base y)
  then show ?case using assms(1) by blast
next
  case (step y z)
  then have "appears_before y b order" by simp
  moreover have "y \<in> set order" using \<open>appears_before y b order\<close> appears_before_in by fast
  then have "appears_before z y order" using assms(1) step.hyps(2) by blast
  ultimately show ?case using appears_before_trans by fast
qed

section \<open>The resolved order\<close>

lemma keys_chain: "keys chain_manager = [''plugin-c'', ''plugin-b'', ''plugin-a'']"
  by code_simp

lemma edges_chain: "dep_edges chain_manager = [(''plugin-b'', ''plugin-c''), (''plugin-a'', ''plugin-b'')]"
  by code_simp

text \<open>
  Claim C1. For every registry whose dependency relation, restricted to registered ids, is
  acyclic, and in which every dependency declared by a registered plugin is itself registered,
  \<open>resolveInitializationOrder\<close> returns a sequence that holds every registered id exactly
  once, and in which whatever a member depends on, directly or transitively, stands before it.
\<close>

theorem resolveInitializationOrder_topological:
  assumes "acyclic (registered_rel m)"
    and "dep_rel m `` set (keys m) \<subseteq> set (keys m)"
  shows "\<exists>order. resolveInitializationOrder m = Inr order \<and> distinct order \<and>
           set order = set (keys m) \<and>
           (\<forall>a b. b \<in> set order \<and> (b, a) \<in> (dep_rel m)\<^sup>+ \<longrightarrow> appears_before a b order)"
proof (cases "resolveInitializationOrder m")
  case (Inl e)
  then have "explained m e" by (rule resolve_failure)
  from explained_acyclic[OF this assms(1)] assms(2) show ?thesis by blast
next
  case (Inr order)
  note s = resolve_success[OF Inr]
  have "appears_before a b order" if "b \<in> set order" "(b, a) \<in> (dep_rel m)\<^sup>+" for a b
  proof (rule trans_before[OF _ that(2,1)])
    fix x d assume "x \<in> set order" "(x, d) \<in> dep_rel m"
    then show "d \<in> set order \<and> appears_before d x order" using s(2,3) by blast
  qed
  with Inr s(1,2) show ?thesis by blast
qed

theorem resolveInitializationOrder_topological_witness:
  "acyclic (registered_rel chain_manager) \<and>
   dep_rel chain_manager `` set (keys chain_manager) \<subseteq> set (keys chain_manager) \<and>
   (\<exists>order. resolveInitializationOrder chain_manager = Inr order \<and> distinct order \<and>
           set order = set (keys chain_manager) \<and>
           (\<forall>a b. b \<in> set order \<and> (b, a) \<in> (dep_rel chain_manager)\<^sup>+ \<longrightarrow> appears_before a b order))"
proof -
  have "acyclic (dep_rel chain_manager)"
    by (simp add: dep_rel_def edges_chain rtrancl_insert acyclic_def[of "{}"])
  then have h1: "acyclic (registered_rel chain_manager)"
    by (rule acyclic_subset) (simp add: registered_rel_def)
  have h2: "dep_rel chain_manager `` set (keys chain_manager) \<subseteq> set (keys chain_manager)"
    by (auto simp: dep_rel_def edges_chain keys_chain)
  from resolveInitializationOrder_topological[OF h1 h2] h1 h2 show ?thesis by blast
qed

subsection \<open>Cycles\<close>

lemma keys_cbm: "keys cycle_behind_missing = [''a'', ''b'']"
  by code_simp

lemma edges_cbm: "dep_edges cycle_behind_missing = [(''a'', ''zz''), (''a'', ''b''), (''b'', ''a'')]"
  by code_simp

text \<open>
  Claim C5 says that every registry whose dependency relation has a cycle makes
  \<open>resolveInitializationOrder\<close> fail with the circular-dependency error. The walk checks each
  dependency for being registered before it descends into it, so an unregistered dependency met
  before the cycle is closed wins: \<open>a\<close> depends on \<open>zz\<close> (not registered) and on \<open>b\<close>, and
  \<open>b\<close> depends on \<open>a\<close>; the error is the missing dependency \<open>zz\<close>.
\<close>

theorem cycle_counterexample:
  "(''a'', ''b'') \<in> registered_rel cycle_behind_missing \<and>
   (''b'', ''a'') \<in> registered_rel cycle_behind_missing \<and>
   resolveInitializationOrder cycle_behind_missing =
     Inl \<lparr>message = ''Missing dependency: zz for plugin a'', code = ''CONFIGURATION_ERROR'',
          cause = None, error_context = []\<rparr>"
proof -
  have "resolveInitializationOrder cycle_behind_missing =
     Inl \<lparr>message = ''Missing dependency: zz for plugin a'', code = ''CONFIGURATION_ERROR'',
          cause = None, error_context = []\<rparr>"
    by code_simp
  then show ?thesis
    by (simp add: registered_rel_def dep_rel_def edges_cbm keys_cbm)
qed

lemma keys_two: "keys two_cycle = [''a'', ''b'']"
  by code_simp

lemma edges_two: "dep_edges two_cycle = [(''a'', ''b''), (''b'', ''a'')]"
  by code_simp

text \<open>
  Claim C5, amended. For every registry in which every dependency declared by a registered
  plugin is registered and whose dependency relation (restricted to registered ids) has a cycle,
  \<open>resolveInitializationOrder\<close> fails with the circular-dependency error; the reported path
  ends in the revisited id \<open>x\<close>, and from the earlier \<open>x\<close> on it is a cycle of the dependency
  relation, so that it holds every id of the cycle that was found.
\<close>

theorem resolveInitializationOrder_cycle:
  assumes "\<not> acyclic (registered_rel m)"
    and "dep_rel m `` set (keys m) \<subseteq> set (keys m)"
  shows "\<exists>pre x cyc. resolveInitializationOrder m = Inl (circular_dependency_error (pre @ x # cyc @ [x])) \<and>
           dep_walk m (x # cyc @ [x])"
proof (cases "resolveInitializationOrder m")
  case (Inl e)
  then have "explained m e" by (rule resolve_failure)
  with assms(2) Inl show ?thesis unfolding explained_def by blast
next
  case (Inr order)
  then show ?thesis using resolve_success_acyclic assms(1) by blast
qed

theorem resolveInitializationOrder_cycle_witness:
  "\<not> acyclic (registered_rel two_cycle) \<and>
   dep_rel two_cycle `` set (keys two_cycle) \<subseteq> set (keys two_cycle) \<and>
   (\<exists>pre x cyc. resolveInitializationOrder two_cycle =
       Inl (circular_dependency_error (pre @ x # cyc @ [x])) \<and> dep_walk two_cycle (x # cyc @ [x]))"
proof -
  have ab: "(''a'', ''b'') \<in> registered_rel two_cycle"
    and ba: "(''b'', ''a'') \<in> registered_rel two_cycle"
    by (simp_all add: registered_rel_def dep_rel_def edges_two keys_two)
  have "(''a'', ''a'') \<in> (registered_rel two_cycle)\<^sup>+"
    by (rule trancl.trancl_into_trancl[OF trancl.r_into_trancl[OF ab] ba])
  then have h1: "\<not> acyclic (registered_rel two_cycle)"
    by (auto simp: acyclic_def)
  have h2: "dep_rel two_cycle `` set (keys two_cycle) \<subseteq> set (keys two_cycle)"
    by (auto simp: dep_rel_def edges_two keys_two)
  from resolveInitializationOrder_cycle[OF h1 h2] h1 h2 show ?thesis by blast
qed

subsection \<open>Missing dependencies\<close>

lemma keys_mbc: "keys missing_behind_cycle = [''a'', ''b'']"
  by code_simp

lemma edges_mbc: "dep_edges missing_behind_cycle = [(''a'', ''b''), (''b'', ''a''), (''b'', ''zz'')]"
  by code_simp

text \<open>
  Claim C9 says that every registry in which a registered plugin declares an unregistered
  dependency makes \<open>resolveInitializationOrder\<close> fail with the missing-dependency error. A
  cycle closed before the walk reaches that dependency wins: \<open>a\<close> depends on \<open>b\<close>, and \<open>b\<close>
  depends on \<open>a\<close> and on \<open>zz\<close> (not registered); the error is the circular dependency.
\<close>

theorem missing_counterexample:
  "''b'' \<in> set (keys missing_behind_cycle) \<and> (''b'', ''zz'') \<in> dep_rel missing_behind_cycle \<and>
   ''zz'' \<notin> set (keys missing_behind_cycle) \<and>
   resolveInitializationOrder missing_behind_cycle =
     Inl \<lparr>message = ''Circular dependency detected'', code = ''CONFIGURATION_ERROR'',
          cause = None, error_context = [(''cycle'', Ctx_string ''a -> b -> a'')]\<rparr>"
proof -
  have "resolveInitializationOrder missing_behind_cycle =
     Inl \<lparr>message = ''Circular dependency detected'', code = ''CONFIGURATION_ERROR'',
          cause = None, error_context = [(''cycle'', Ctx_string ''a -> b -> a'')]\<rparr>"
    by code_simp
  then show ?thesis
    by (simp add: dep_rel_def edges_mbc keys_mbc)
qed

lemma keys_mo: "keys missing_only = [''plugin-a'']"
  by code_simp

lemma edges_mo: "dep_edges missing_only = [(''plugin-a'', ''plugin-b'')]"
  by code_simp

text \<open>
  Claim C9, amended. For every registry whose dependency relation (restricted to registered
  ids) is acyclic and in which some registered plugin declares a dependency that is not
  registered, \<open>resolveInitializationOrder\<close> fails with the missing-dependency error, which
  names an unregistered id and a registered plugin that declares it.
\<close>

theorem resolveInitializationOrder_missing:
  assumes "n \<in> set (keys m)" "(n, d) \<in> dep_rel m" "d \<notin> set (keys m)"
    and "acyclic (registered_rel m)"
  shows "\<exists>d' n'. resolveInitializationOrder m = Inl (missing_dependency_error d' n') \<and>
           n' \<in> set (keys m) \<and> (n', d') \<in> dep_rel m \<and> d' \<notin> set (keys m)"
proof (cases "resolveInitializationOrder m")
  case (Inl e)
  then have "explained m e" by (rule resolve_failure)
  from explained_acyclic[OF this assms(4)] Inl show ?thesis by blast
next
  case (Inr order)
  from resolve_success(3)[OF Inr assms(1,2)] assms(3) show ?thesis by blast
qed

theorem resolveInitializationOrder_missing_witness:
  "''plugin-a'' \<in> set (keys missing_only) \<and> (''plugin-a'', ''plugin-b'') \<in> dep_rel missing_only \<and>
   ''plugin-b'' \<notin> set (keys missing_only) \<and> acyclic (registered_rel missing_only) \<and>
   (\<exists>d' n'. resolveInitializationOrder missing_only = Inl (missing_dependency_error d' n') \<and>
           n' \<in> set (keys missing_only) \<and> (n', d') \<in> dep_rel missing_only \<and>
           d' \<notin> set (keys missing_only))"
proof -
  have h1: "''plugin-a'' \<in> set (keys missing_only)" by (simp add: keys_mo)
  have h2: "(''plugin-a'', ''plugin-b'') \<in> dep_rel missing_only" by (simp add: dep_rel_def edges_mo)
  have h3: "''plugin-b'' \<notin> set (keys missing_only)" by (simp add: keys_mo)
  have "registered_rel missing_only = {}"
    by (auto simp: registered_rel_def dep_rel_def edges_mo keys_mo)
  then have h4: "acyclic (registered_rel missing_only)" by (simp add: acyclic_def)
  from resolveInitializationOrder_missing[OF h1 h2 h3 h4] h1 h2 h3 h4 show ?thesis by blast
qed

section \<open>Initialization with retries\<close>

lemma events_log [simp]:
  "events (log_info msg m) = events m @ [Log_info msg]"
  "events (log_warn msg m) = events m @ [Log_warn msg]"
  "events (log_error msg err m) = events m @ [Log_error msg err]"
  "events (wait ms m) = events m @ [Wait ms]"
  "events (update_entry name f m) = events m"
  by (simp_all add: log_info_def log_warn_def log_error_def wait_def update_entry_def)

lemma plugins_log [simp]:
  "plugins (log_info msg m) = plugins m"
  "plugins (log_warn msg m) = plugins m"
  "plugins (log_error msg err m) = plugins m"
  "plugins (wait ms m) = plugins m"
  by (simp_all add: log_info_def log_warn_def log_error_def wait_def)

lemma dependencies_log [simp]:
  "dependencies (log_info msg m) = dependencies m"
  "dependencies (log_warn msg m) = dependencies m"
  "dependencies (log_error msg err m) = dependencies m"
  "dependencies (wait ms m) = dependencies m"
  "dependencies (update_entry name f m) = dependencies m"
  by (simp_all add: log_info_def log_warn_def log_error_def wait_def update_entry_def)

lemma keys_log [simp]:
  "keys (log_info msg m) = keys m"
  "keys (log_warn msg m) = keys m"
  "keys (log_error msg err m) = keys m"
  "keys (wait ms m) = keys m"
  by (simp_all add: keys_def)

lemma keys_update_entry [simp]: "keys (update_entry name f m) = keys m"
  by (simp add: keys_def update_entry_def comp_def case_prod_beta if_distrib cong: if_cong)

lemma get_entry_log [simp]:
  "get_entry (log_info msg m) = get_entry m"
  "get_entry (log_warn msg m) = get_entry m"
  "get_entry (log_error msg err m) = get_entry m"
  "get_entry (wait ms m) = get_entry m"
  by (simp_all add: get_entry_def fun_eq_iff)

lemma map_of_update:
  "map_of (map (\<lambda>(k, e). if k = name then (k, f e) else (k, e)) ps) k' =
     (if k' = name then map_option f (map_of ps k') else map_of ps k')"
  by (induction ps) auto

lemma get_entry_update_entry [simp]:
  "get_entry (update_entry name f m) k =
     (if k = name then map_option f (get_entry m k) else get_entry m k)"
  by (simp add: get_entry_def update_entry_def map_of_update)

lemma get_entry_events_update [simp]:
  "get_entry (m\<lparr>events := evs\<rparr>) = get_entry m"
  "keys (m\<lparr>events := evs\<rparr>) = keys m"
  by (simp_all add: get_entry_def keys_def fun_eq_iff)

lemma has_get_entry: "has m name \<longleftrightarrow> get_entry m name \<noteq> None"
  by (simp add: has_def keys_def get_entry_def map_of_eq_None_iff)

lemma call_initialize_simps [simp]:
  "fst (call_initialize name p m) = next_initialize p 0"
  "next_initialize (fst (snd (call_initialize name p m))) k = next_initialize p (Suc k)"
  "events (snd (snd (call_initialize name p m))) = events m @ [Call_initialize name]"
  "keys (snd (snd (call_initialize name p m))) = keys m"
  "dependencies (snd (snd (call_initialize name p m))) = dependencies m"
  by (simp_all add: call_initialize_def Let_def next_initialize_def)

lemma get_entry_call_initialize:
  "get_entry (snd (snd (call_initialize name p m))) k =
     (if k = name then map_option (\<lambda>e. e\<lparr>plugin := fst (snd (call_initialize name p m))\<rparr>) (get_entry m k)
      else get_entry m k)"
  by (simp add: call_initialize_def Let_def)

lemma error_count_call_initialize [simp]:
  "error_count (snd (snd (call_initialize name p m))) k = error_count m k"
  by (auto simp: option.map_comp comp_def error_count_def get_entry_call_initialize split: option.splits)

lemma is_initialized_call_initialize [simp]:
  "is_initialized (snd (snd (call_initialize name p m))) k = is_initialized m k"
  by (auto simp: is_initialized_def get_entry_call_initialize split: option.splits)

lemma observers_log [simp]:
  "error_count (log_info msg m) = error_count m"
  "error_count (log_error msg err m) = error_count m"
  "error_count (log_warn msg m) = error_count m"
  "error_count (wait ms m) = error_count m"
  "is_initialized (log_info msg m) = is_initialized m"
  "is_initialized (log_error msg err m) = is_initialized m"
  "is_initialized (log_warn msg m) = is_initialized m"
  "is_initialized (wait ms m) = is_initialized m"
  by (simp_all add: error_count_def is_initialized_def fun_eq_iff)

lemma initialize_calls_simps [simp]:
  "initialize_calls (log_info msg m) k = initialize_calls m k"
  "initialize_calls (log_error msg err m) k = initialize_calls m k"
  "initialize_calls (log_warn msg m) k = initialize_calls m k"
  "initialize_calls (wait ms m) k = initialize_calls m k"
  "initialize_calls (update_entry name f m) k = initialize_calls m k"
  "initialize_calls (snd (snd (call_initialize name p m))) k =
     initialize_calls m k + (if k = name then 1 else 0)"
  by (simp_all add: initialize_calls_def)

lemma waits_simps [simp]:
  "waits (log_info msg m) = waits m"
  "waits (log_error msg err m) = waits m"
  "waits (log_warn msg m) = waits m"
  "waits (wait ms m) = waits m @ [ms]"
  "waits (update_entry name f m) = waits m"
  "waits (snd (snd (call_initialize name p m))) = waits m"
  by (simp_all add: waits_def)

lemma error_count_increment [simp]:
  "error_count (update_entry name increment_errorCount m) k =
     (if k = name then map_option (\<lambda>c. c + 1) (error_count m k) else error_count m k)"
  by (auto simp: option.map_comp comp_def error_count_def increment_errorCount_def split: option.splits)

lemma is_initialized_increment [simp]:
  "is_initialized (update_entry name increment_errorCount m) k = is_initialized m k"
  by (auto simp: is_initialized_def increment_errorCount_def split: option.splits)

lemma is_initialized_set:
  "is_initialized (update_entry name (\<lambda>e. e\<lparr>isInitialized := b\<rparr>) m) k =
     (if k = name then has m name \<and> b else is_initialized m k)"
  by (auto simp: is_initialized_def has_get_entry split: option.splits)

lemma error_count_set_initialized [simp]:
  "error_count (update_entry name (\<lambda>e. e\<lparr>isInitialized := b\<rparr>) m) k = error_count m k"
  by (auto simp: option.map_comp comp_def error_count_def split: option.splits)


declare attempt_loop.simps [simp del]

lemma bound_of_int [simp]:
  "less_than_bound a (Some (of_int n)) \<longleftrightarrow> a < n"
  "equals_bound a (Some (of_int n)) \<longleftrightarrow> a = n"
  by (simp_all add: less_than_bound_def equals_bound_def)

lemma less_than_bound_le: "less_than_bound b r \<Longrightarrow> a \<le> b \<Longrightarrow> less_than_bound a r"
  by (cases r) (auto simp: less_than_bound_def elim: order_le_less_trans[rotated])

lemma less_than_bound_not_equals: "less_than_bound b r \<Longrightarrow> a \<le> b \<Longrightarrow> \<not> equals_bound a r"
  by (cases r) (auto simp: less_than_bound_def equals_bound_def)

lemma attempts_left_0: "attempts_left r a = 0 \<Longrightarrow> \<not> less_than_bound a r"
  by (cases r) (auto simp: attempts_left_def less_than_bound_def ceiling_le_iff)

lemma attempts_left_Suc: "attempts_left r a = Suc d \<Longrightarrow> attempts_left r (a + 1) = d"
  by (cases r) (auto simp: attempts_left_def)

lemma attempt_loop_done:
  "\<not> less_than_bound a r \<Longrightarrow> attempt_loop name p r a m = (Inr (), m)"
  by (subst attempt_loop.simps) simp

lemma attempt_loop_resolved:
  "less_than_bound a r \<Longrightarrow> race_timeout (next_initialize p 0) = Resolved \<Longrightarrow>
   attempt_loop name p r a m =
     (Inr (), log_info (''Initialized plugin: '' @ name)
                (update_entry name (\<lambda>e. e\<lparr>isInitialized := True\<rparr>)
                   (snd (snd (call_initialize name p m)))))"
  by (subst attempt_loop.simps) (simp add: case_prod_beta)

lemma attempt_loop_last:
  "less_than_bound a r \<Longrightarrow> race_timeout (next_initialize p 0) = Rejected v \<Longrightarrow>
   equals_bound (a + 1) r \<Longrightarrow>
   attempt_loop name p r a m =
     (Inl (initialization_failed_error name v (a + 1)),
      log_error (attempt_failed_message (a + 1) r name) (From_plugin (as_Error v))
        (update_entry name increment_errorCount (snd (snd (call_initialize name p m)))))"
  by (subst attempt_loop.simps) (auto simp add: case_prod_beta Let_def)

lemma attempt_loop_retry:
  "less_than_bound a r \<Longrightarrow> race_timeout (next_initialize p 0) = Rejected v \<Longrightarrow>
   \<not> equals_bound (a + 1) r \<Longrightarrow>
   attempt_loop name p r a m =
     attempt_loop name (fst (snd (call_initialize name p m))) r (a + 1)
       (wait (1000 * (a + 1))
          (log_error (attempt_failed_message (a + 1) r name) (From_plugin (as_Error v))
             (update_entry name increment_errorCount (snd (snd (call_initialize name p m))))))"
  by (subst attempt_loop.simps) (simp add: case_prod_beta Let_def)

lemma not_Resolved: "o1 \<noteq> Resolved \<longleftrightarrow> (\<exists>v. o1 = Rejected v)"
  by (cases o1) auto

lemma upt_shift: "map f [1..<Suc (Suc j)] = f 1 # map (\<lambda>i. f (Suc i)) [1..<Suc j]"
proof -
  have "[1..<Suc (Suc j)] = 1 # [Suc 1..<Suc (Suc j)]"
    by (rule upt_conv_Cons) simp
  also have "[Suc 1..<Suc (Suc j)] = map Suc [1..<Suc j]"
    by (simp only: map_Suc_upt)
  finally show ?thesis by (simp add: comp_def del: upt_Suc)
qed

lemma attempt_loop_success:
  assumes "has m name" "less_than_bound (a + int j) r"
    "\<forall>i<j. race_timeout (next_initialize p i) \<noteq> Resolved"
    "race_timeout (next_initialize p j) = Resolved"
  shows "fst (attempt_loop name p r a m) = Inr () \<and>
    is_initialized (snd (attempt_loop name p r a m)) name \<and>
    initialize_calls (snd (attempt_loop name p r a m)) name = initialize_calls m name + Suc j \<and>
    error_count (snd (attempt_loop name p r a m)) name =
      map_option (\<lambda>c. c + int j) (error_count m name) \<and>
    waits (snd (attempt_loop name p r a m)) = waits m @ map (\<lambda>i. 1000 * (a + int i)) [1..<Suc j] \<and>
    keys (snd (attempt_loop name p r a m)) = keys m"
  using assms
proof (induction j arbitrary: p a m)
  case 0
  then have "less_than_bound a r" by simp
  from attempt_loop_resolved[OF this] 0 show ?case
    by (simp add: is_initialized_set has_def option.map_ident)
next
  case (Suc j)
  from Suc.prems(3) obtain v where v: "race_timeout (next_initialize p 0) = Rejected v"
    by (auto simp: not_Resolved)
  have lt: "less_than_bound a r"
    by (rule less_than_bound_le[OF Suc.prems(2)]) simp
  have ne: "\<not> equals_bound (a + 1) r"
    by (rule less_than_bound_not_equals[OF Suc.prems(2)]) simp
  let ?p = "fst (snd (call_initialize name p m))"
  let ?m = "wait (1000 * (a + 1))
          (log_error (attempt_failed_message (a + 1) r name) (From_plugin (as_Error v))
             (update_entry name increment_errorCount (snd (snd (call_initialize name p m)))))"
  have step: "attempt_loop name p r a m = attempt_loop name ?p r (a + 1) ?m"
    by (rule attempt_loop_retry[OF lt v ne])
  have "has ?m name" using Suc.prems(1) by (simp add: has_def)
  moreover have "less_than_bound (a + 1 + int j) r"
    using Suc.prems(2) by (simp add: add.assoc add.commute add.left_commute)
  moreover have "\<forall>i<j. race_timeout (next_initialize ?p i) \<noteq> Resolved" using Suc.prems(3) by auto
  moreover have "race_timeout (next_initialize ?p j) = Resolved" using Suc.prems(4) by simp
  ultimately have IH: "fst (attempt_loop name ?p r (a + 1) ?m) = Inr () \<and>
    is_initialized (snd (attempt_loop name ?p r (a + 1) ?m)) name \<and>
    initialize_calls (snd (attempt_loop name ?p r (a + 1) ?m)) name = initialize_calls ?m name + Suc j \<and>
    error_count (snd (attempt_loop name ?p r (a + 1) ?m)) name =
      map_option (\<lambda>c. c + int j) (error_count ?m name) \<and>
    waits (snd (attempt_loop name ?p r (a + 1) ?m)) = waits ?m @ map (\<lambda>i. 1000 * (a + 1 + int i)) [1..<Suc j] \<and>
    keys (snd (attempt_loop name ?p r (a + 1) ?m)) = keys ?m"
    by (rule Suc.IH)
  have w: "map (\<lambda>i. 1000 * (a + int i)) [1..<Suc (Suc j)] =
        (1000 * (a + 1)) # map (\<lambda>i. 1000 * (a + 1 + int i)) [1..<Suc j]"
    unfolding upt_shift[of "\<lambda>i. 1000 * (a + int i)" j]
    by (simp add: add.assoc add.commute add.left_commute del: upt_Suc)
  have c1: "initialize_calls ?m name = initialize_calls m name + 1" by simp
  have c2: "error_count ?m name = map_option (\<lambda>c. c + 1) (error_count m name)" by simp
  have c3: "waits ?m = waits m @ [1000 * (a + 1)]" by simp
  have c4: "keys ?m = keys m" by simp
  have e: "map_option (\<lambda>c. c + int j) (map_option (\<lambda>c. c + 1) (error_count m name)) =
      map_option (\<lambda>c. c + int (Suc j)) (error_count m name)"
    by (cases "error_count m name") simp_all
  show ?case unfolding step w using IH unfolding c1 c2 c3 c4 e by simp
qed

lemma attempt_loop_failure:
  assumes "a + int (Suc k) = n" "\<forall>i<Suc k. race_timeout (next_initialize p i) \<noteq> Resolved"
  shows "\<exists>v. race_timeout (next_initialize p k) = Rejected v \<and>
    fst (attempt_loop name p (Some (of_int n)) a m) = Inl (initialization_failed_error name v n) \<and>
    initialize_calls (snd (attempt_loop name p (Some (of_int n)) a m)) name =
      initialize_calls m name + Suc k \<and>
    error_count (snd (attempt_loop name p (Some (of_int n)) a m)) name =
      map_option (\<lambda>c. c + int (Suc k)) (error_count m name) \<and>
    waits (snd (attempt_loop name p (Some (of_int n)) a m)) =
      waits m @ map (\<lambda>i. 1000 * (a + int i)) [1..<Suc k] \<and>
    is_initialized (snd (attempt_loop name p (Some (of_int n)) a m)) name = is_initialized m name \<and>
    keys (snd (attempt_loop name p (Some (of_int n)) a m)) = keys m"
  using assms
proof (induction k arbitrary: p a m)
  case 0
  then obtain v where v: "race_timeout (next_initialize p 0) = Rejected v"
    by (auto simp: not_Resolved)
  have "less_than_bound a (Some (of_int n))" "equals_bound (a + 1) (Some (of_int n))"
    using 0(1) by auto
  from attempt_loop_last[OF this(1) v this(2)] v 0(1) show ?case
    by (simp add: option.map_comp comp_def)
next
  case (Suc k)
  let ?r = "Some (of_int n) :: number option"
  from Suc.prems(2) obtain v where v: "race_timeout (next_initialize p 0) = Rejected v"
    by (auto simp: not_Resolved)
  have lt: "less_than_bound a ?r" and ne: "\<not> equals_bound (a + 1) ?r"
    using Suc.prems(1) by auto
  let ?p = "fst (snd (call_initialize name p m))"
  let ?m = "wait (1000 * (a + 1))
          (log_error (attempt_failed_message (a + 1) ?r name) (From_plugin (as_Error v))
             (update_entry name increment_errorCount (snd (snd (call_initialize name p m)))))"
  have step: "attempt_loop name p ?r a m = attempt_loop name ?p ?r (a + 1) ?m"
    by (rule attempt_loop_retry[OF lt v ne])
  have "a + 1 + int (Suc k) = n" using Suc.prems(1) by simp
  moreover have "\<forall>i<Suc k. race_timeout (next_initialize ?p i) \<noteq> Resolved" using Suc.prems(2) by auto
  ultimately obtain w where IH: "race_timeout (next_initialize ?p k) = Rejected w"
    "fst (attempt_loop name ?p ?r (a + 1) ?m) = Inl (initialization_failed_error name w n)"
    "initialize_calls (snd (attempt_loop name ?p ?r (a + 1) ?m)) name = initialize_calls ?m name + Suc k"
    "error_count (snd (attempt_loop name ?p ?r (a + 1) ?m)) name =
      map_option (\<lambda>c. c + int (Suc k)) (error_count ?m name)"
    "waits (snd (attempt_loop name ?p ?r (a + 1) ?m)) = waits ?m @ map (\<lambda>i. 1000 * (a + 1 + int i)) [1..<Suc k]"
    "is_initialized (snd (attempt_loop name ?p ?r (a + 1) ?m)) name = is_initialized ?m name"
    "keys (snd (attempt_loop name ?p ?r (a + 1) ?m)) = keys ?m"
    using Suc.IH[of "a + 1" ?p ?m] by blast
  have w: "map (\<lambda>i. 1000 * (a + int i)) [1..<Suc (Suc k)] =
        (1000 * (a + 1)) # map (\<lambda>i. 1000 * (a + 1 + int i)) [1..<Suc k]"
    unfolding upt_shift[of "\<lambda>i. 1000 * (a + int i)" k]
    by (simp add: add.assoc add.commute add.left_commute del: upt_Suc)
  have c1: "initialize_calls ?m name = initialize_calls m name + 1" by simp
  have c2: "error_count ?m name = map_option (\<lambda>c. c + 1) (error_count m name)" by simp
  have c3: "waits ?m = waits m @ [1000 * (a + 1)]" by simp
  have c4: "keys ?m = keys m" by simp
  have c5: "is_initialized ?m name = is_initialized m name" by simp
  have e: "map_option (\<lambda>c. c + int (Suc k)) (map_option (\<lambda>c. c + 1) (error_count m name)) =
      map_option (\<lambda>c. c + int (Suc (Suc k))) (error_count m name)"
    by (cases "error_count m name") simp_all
  have "race_timeout (next_initialize p (Suc k)) = Rejected w" using IH(1) by simp
  then show ?case unfolding step w using IH(2-7) unfolding c1 c2 c3 c4 c5 e by simp
qed

lemma map_of_map_set:
  "map_of (map_set k v ps) k' = (if k' = k then Some v else map_of ps k')"
  by (induction ps) auto

lemma get_entry_registerPlugin:
  "validatePluginConfig name cfg m = Inr () \<Longrightarrow>
   get_entry (snd (registerPlugin name p cfg now m)) k =
     (if k = name
      then Some \<lparr>plugin = p, config = normalizeConfig cfg, isInitialized = False,
                 entry_metrics = \<lparr>lastHeartbeat = now, errorCount = 0, warningCount = 0\<rparr>\<rparr>
      else get_entry m k)"
  by (simp add: registerPlugin_def Let_def get_entry_def map_of_map_set log_info_def)

lemma flaky_entry:
  "get_entry flaky_manager ''failing-plugin'' =
     Some \<lparr>plugin = flaky_plugin, config = normalizeConfig no_config, isInitialized = False,
           entry_metrics = \<lparr>lastHeartbeat = 0, errorCount = 0, warningCount = 0\<rparr>\<rparr>"
  unfolding flaky_manager_def register_def
  by (subst get_entry_registerPlugin)
     (simp_all add: validatePluginConfig_def has_def keys_def new_manager_def no_config_def)

lemmas run_simps =
  register_def registerPlugin_def validatePluginConfig_def has_def keys_def new_manager_def
  normalizeConfig_def no_config_def with_retries_def depends_on_def log_info_def log_error_def
  log_warn_def wait_def initializePlugin_def get_entry_def Let_def call_initialize_def
  update_entry_def less_than_bound_def equals_bound_def next_initialize_def
  increment_errorCount_def is_initialized_def initialize_calls_def waits_def error_count_def
  attempt_loop.simps race_timeout.simps initialization_failed_error_def PLUGIN_ERROR_def

text \<open>
  Claim C3 says, for every registered plugin with \<open>retryAttempts = n\<close>, that the call returns
  normally with the plugin initialized or throws the initialization-failed error wrapping the
  last cause. \<open>retryAttempts\<close> is a number that nothing validates. With 0 the loop is not
  entered: the call returns normally, \<open>initialize\<close> is never called and the plugin is not
  initialized; the same holds for an own property \<open>retryAttempts: undefined\<close>, which the spread
  puts in the place of the default 3. With 2.5 the test \<open>attempts === retryAttempts\<close> never
  holds: a plugin that always fails is called three times, the third failure is followed by a
  wait of 3000 ms, and the call returns normally with the plugin not initialized. And the error
  wraps what the last attempt threw only when that is an instance of \<open>Error\<close>: for a plugin
  that rejects with a string the cause is left undefined.
\<close>

theorem initializePlugin_counterexample:
  "map_option (\<lambda>e. retryAttempts (config_errorHandling (config e)))
      (get_entry no_attempts_manager ''failing-plugin'') = Some (Some 0) \<and>
   fst (initializePlugin ''failing-plugin'' no_attempts_manager) = Inr () \<and>
   \<not> is_initialized (snd (initializePlugin ''failing-plugin'' no_attempts_manager)) ''failing-plugin'' \<and>
   initialize_calls (snd (initializePlugin ''failing-plugin'' no_attempts_manager)) ''failing-plugin'' = 0 \<and>
   map_option (\<lambda>e. retryAttempts (config_errorHandling (config e)))
      (get_entry undefined_retries_manager ''failing-plugin'') = Some None \<and>
   fst (initializePlugin ''failing-plugin'' undefined_retries_manager) = Inr () \<and>
   \<not> is_initialized (snd (initializePlugin ''failing-plugin'' undefined_retries_manager))
        ''failing-plugin'' \<and>
   initialize_calls (snd (initializePlugin ''failing-plugin'' undefined_retries_manager))
        ''failing-plugin'' = 0 \<and>
   map_option (\<lambda>e. retryAttempts (config_errorHandling (config e)))
      (get_entry fractional_manager ''failing-plugin'') = Some (Some (5 / 2)) \<and>
   fst (initializePlugin ''failing-plugin'' fractional_manager) = Inr () \<and>
   \<not> is_initialized (snd (initializePlugin ''failing-plugin'' fractional_manager)) ''failing-plugin'' \<and>
   initialize_calls (snd (initializePlugin ''failing-plugin'' fractional_manager)) ''failing-plugin'' = 3 \<and>
   waits (snd (initializePlugin ''failing-plugin'' fractional_manager)) = [1000, 2000, 3000] \<and>
   map_option (\<lambda>e. attempt_outcome e 0) (get_entry string_rejecting_manager ''failing-plugin'') =
     Some (Rejected (Non_error ''boom'')) \<and>
   fst (initializePlugin ''failing-plugin'' string_rejecting_manager) =
     Inl \<lparr>message = ''Failed to initialize plugin: failing-plugin'', code = ''PLUGIN_ERROR'',
          cause = None, error_context = [(''attempts'', Ctx_number 1)]\<rparr>"
proof -
  have zero: "map_option (\<lambda>e. retryAttempts (config_errorHandling (config e)))
      (get_entry no_attempts_manager ''failing-plugin'') = Some (Some 0) \<and>
   fst (initializePlugin ''failing-plugin'' no_attempts_manager) = Inr () \<and>
   \<not> is_initialized (snd (initializePlugin ''failing-plugin'' no_attempts_manager)) ''failing-plugin'' \<and>
   initialize_calls (snd (initializePlugin ''failing-plugin'' no_attempts_manager)) ''failing-plugin'' = 0"
    by (simp add: no_attempts_manager_def failing_plugin_def run_simps)
  have undef: "map_option (\<lambda>e. retryAttempts (config_errorHandling (config e)))
      (get_entry undefined_retries_manager ''failing-plugin'') = Some None \<and>
   fst (initializePlugin ''failing-plugin'' undefined_retries_manager) = Inr () \<and>
   \<not> is_initialized (snd (initializePlugin ''failing-plugin'' undefined_retries_manager))
        ''failing-plugin'' \<and>
   initialize_calls (snd (initializePlugin ''failing-plugin'' undefined_retries_manager))
        ''failing-plugin'' = 0"
    by (simp add: undefined_retries_manager_def failing_plugin_def run_simps)
  have frac: "map_option (\<lambda>e. retryAttempts (config_errorHandling (config e)))
      (get_entry fractional_manager ''failing-plugin'') = Some (Some (5 / 2)) \<and>
   fst (initializePlugin ''failing-plugin'' fractional_manager) = Inr () \<and>
   \<not> is_initialized (snd (initializePlugin ''failing-plugin'' fractional_manager)) ''failing-plugin'' \<and>
   initialize_calls (snd (initializePlugin ''failing-plugin'' fractional_manager)) ''failing-plugin'' = 3 \<and>
   waits (snd (initializePlugin ''failing-plugin'' fractional_manager)) = [1000, 2000, 3000]"
    by (simp add: fractional_manager_def failing_plugin_def run_simps)
  have str: "map_option (\<lambda>e. attempt_outcome e 0) (get_entry string_rejecting_manager ''failing-plugin'') =
     Some (Rejected (Non_error ''boom'')) \<and>
   fst (initializePlugin ''failing-plugin'' string_rejecting_manager) =
     Inl \<lparr>message = ''Failed to initialize plugin: failing-plugin'', code = ''PLUGIN_ERROR'',
          cause = None, error_context = [(''attempts'', Ctx_number 1)]\<rparr>"
    by (simp add: string_rejecting_manager_def string_rejecting_plugin_def attempt_outcome_def
        run_simps)
  from zero undef frac str show ?thesis by simp
qed

text \<open>
  Claim C3, amended. For every registered plugin whose \<open>retryAttempts\<close> is an integer \<open>n\<close> at
  least 1 (3 when the configuration has no \<open>retryAttempts\<close> property), \<open>initializePlugin\<close>
  calls \<open>initialize\<close> once per attempt until the first success, at most \<open>n\<close> times; each
  failed attempt adds one to \<open>errorCount\<close> and, unless it is the last one, is followed by a
  wait of 1000 ms times its number. If attempt \<open>j + 1\<close>, with \<open>j < n\<close>, is the first to succeed,
  the call returns normally after \<open>j + 1\<close> calls with \<open>isInitialized\<close> set. If all \<open>n\<close> attempts
  fail, the call throws the initialization-failed error with the attempt count \<open>n\<close>, whose
  cause is what the last attempt threw when that is an instance of \<open>Error\<close> and is undefined
  otherwise; \<open>isInitialized\<close> is left as it was.
\<close>

theorem initializePlugin_retries:
  assumes "get_entry m name = Some entry"
    and "retryAttempts (config_errorHandling (config entry)) = Some (of_int n)" and "1 \<le> n"
  shows "(\<forall>j. int j < n \<and> (\<forall>i<j. attempt_outcome entry i \<noteq> Resolved) \<and>
              attempt_outcome entry j = Resolved \<longrightarrow>
            fst (initializePlugin name m) = Inr () \<and>
            is_initialized (snd (initializePlugin name m)) name \<and>
            initialize_calls (snd (initializePlugin name m)) name = initialize_calls m name + j + 1 \<and>
            error_count (snd (initializePlugin name m)) name =
              Some (errorCount (entry_metrics entry) + int j) \<and>
            waits (snd (initializePlugin name m)) = waits m @ map (\<lambda>i. 1000 * int i) [1..<Suc j]) \<and>
         ((\<forall>i. int i < n \<longrightarrow> attempt_outcome entry i \<noteq> Resolved) \<longrightarrow>
            (\<exists>v. attempt_outcome entry (nat n - 1) = Rejected v \<and>
               fst (initializePlugin name m) =
                 Inl \<lparr>message = ''Failed to initialize plugin: '' @ name, code = PLUGIN_ERROR,
                      cause = (if instanceof_Error v then Some v else None),
                      error_context = [(''attempts'', Ctx_number n)]\<rparr>) \<and>
            is_initialized (snd (initializePlugin name m)) name = isInitialized entry \<and>
            initialize_calls (snd (initializePlugin name m)) name = initialize_calls m name + nat n \<and>
            error_count (snd (initializePlugin name m)) name =
              Some (errorCount (entry_metrics entry) + n) \<and>
            waits (snd (initializePlugin name m)) = waits m @ map (\<lambda>i. 1000 * int i) [1..<nat n])"
proof (intro conjI allI impI)
  have ip: "initializePlugin name m = attempt_loop name (plugin entry) (Some (of_int n)) 0 m"
    using assms(1,2) by (simp add: initializePlugin_def)
  have has: "has m name" using assms(1) by (simp add: has_get_entry)
  have ec: "error_count m name = Some (errorCount (entry_metrics entry))"
    using assms(1) by (simp add: error_count_def)
  have ii: "is_initialized m name = isInitialized entry"
    using assms(1) by (simp add: is_initialized_def)
  {
    fix j
    assume j: "int j < n \<and> (\<forall>i<j. attempt_outcome entry i \<noteq> Resolved) \<and>
              attempt_outcome entry j = Resolved"
    then have "less_than_bound (0 + int j) (Some (of_int n))"
      "\<forall>i<j. race_timeout (next_initialize (plugin entry) i) \<noteq> Resolved"
      "race_timeout (next_initialize (plugin entry) j) = Resolved"
      by (simp_all add: attempt_outcome_def)
    note s = attempt_loop_success[OF has this]
    show "fst (initializePlugin name m) = Inr ()" using s by (simp add: ip)
    show "is_initialized (snd (initializePlugin name m)) name" using s by (simp add: ip)
    show "initialize_calls (snd (initializePlugin name m)) name = initialize_calls m name + j + 1"
      using s by (simp add: ip)
    show "error_count (snd (initializePlugin name m)) name =
              Some (errorCount (entry_metrics entry) + int j)"
      using s by (simp add: ip ec)
    show "waits (snd (initializePlugin name m)) = waits m @ map (\<lambda>i. 1000 * int i) [1..<Suc j]"
      using s by (simp add: ip)
  }
  assume all: "\<forall>i. int i < n \<longrightarrow> attempt_outcome entry i \<noteq> Resolved"
  have "n = int (Suc (nat (n - 1)))" using assms(3) by simp
  then obtain k where k: "n = int (Suc k)" ..
  then have "0 + int (Suc k) = n" "\<forall>i<Suc k. race_timeout (next_initialize (plugin entry) i) \<noteq> Resolved"
    using all by (simp_all add: attempt_outcome_def)
  from attempt_loop_failure[OF this, where name = name and m = m]
  obtain v where f: "race_timeout (next_initialize (plugin entry) k) = Rejected v"
    "fst (attempt_loop name (plugin entry) (Some (of_int n)) 0 m) = Inl (initialization_failed_error name v n)"
    "initialize_calls (snd (attempt_loop name (plugin entry) (Some (of_int n)) 0 m)) name = initialize_calls m name + Suc k"
    "error_count (snd (attempt_loop name (plugin entry) (Some (of_int n)) 0 m)) name =
      map_option (\<lambda>c. c + int (Suc k)) (error_count m name)"
    "waits (snd (attempt_loop name (plugin entry) (Some (of_int n)) 0 m)) = waits m @ map (\<lambda>i. 1000 * (0 + int i)) [1..<Suc k]"
    "is_initialized (snd (attempt_loop name (plugin entry) (Some (of_int n)) 0 m)) name = is_initialized m name"
    by blast
  have nk: "nat n = Suc k" using k by simp
  show "\<exists>v. attempt_outcome entry (nat n - 1) = Rejected v \<and>
               fst (initializePlugin name m) =
                 Inl \<lparr>message = ''Failed to initialize plugin: '' @ name, code = PLUGIN_ERROR,
                      cause = (if instanceof_Error v then Some v else None),
                      error_context = [(''attempts'', Ctx_number n)]\<rparr>"
    using f(1,2) by (simp add: ip nk attempt_outcome_def initialization_failed_error_def)
  show "is_initialized (snd (initializePlugin name m)) name = isInitialized entry"
    using f(6) by (simp add: ip ii)
  show "initialize_calls (snd (initializePlugin name m)) name = initialize_calls m name + nat n"
    using f(3) by (simp add: ip nk)
  show "error_count (snd (initializePlugin name m)) name =
              Some (errorCount (entry_metrics entry) + n)"
    using f(4) by (simp add: ip ec k)
  show "waits (snd (initializePlugin name m)) = waits m @ map (\<lambda>i. 1000 * int i) [1..<nat n]"
    using f(5) by (simp add: ip nk)
qed

theorem initializePlugin_retries_witness:
  "fst (initializePlugin ''failing-plugin'' flaky_manager) = Inr () \<and>
   is_initialized (snd (initializePlugin ''failing-plugin'' flaky_manager)) ''failing-plugin'' \<and>
   initialize_calls (snd (initializePlugin ''failing-plugin'' flaky_manager)) ''failing-plugin'' = 3 \<and>
   error_count (snd (initializePlugin ''failing-plugin'' flaky_manager)) ''failing-plugin'' = Some 2 \<and>
   waits (snd (initializePlugin ''failing-plugin'' flaky_manager)) = [1000, 2000]"
proof -
  let ?e = "\<lparr>plugin = flaky_plugin, config = normalizeConfig no_config, isInitialized = False,
           entry_metrics = \<lparr>lastHeartbeat = 0, errorCount = 0, warningCount = 0\<rparr>\<rparr>"
  have h2: "retryAttempts (config_errorHandling (config ?e)) = Some (of_int 3)"
    by (simp add: normalizeConfig_def no_config_def)
  have h3: "(1::int) \<le> 3" by simp
  have o: "int 2 < 3 \<and> (\<forall>i<2. attempt_outcome ?e i \<noteq> Resolved) \<and> attempt_outcome ?e 2 = Resolved"
    by (simp add: attempt_outcome_def flaky_plugin_def next_initialize_def)
  have c0: "initialize_calls flaky_manager ''failing-plugin'' = 0"
    by (simp add: flaky_manager_def run_simps)
  have w0: "waits flaky_manager = []"
    by (simp add: flaky_manager_def run_simps)
  have "int 2 < 3 \<and> (\<forall>i<2. attempt_outcome ?e i \<noteq> Resolved) \<and> attempt_outcome ?e 2 = Resolved \<longrightarrow>
            fst (initializePlugin ''failing-plugin'' flaky_manager) = Inr () \<and>
            is_initialized (snd (initializePlugin ''failing-plugin'' flaky_manager)) ''failing-plugin'' \<and>
            initialize_calls (snd (initializePlugin ''failing-plugin'' flaky_manager)) ''failing-plugin'' =
              initialize_calls flaky_manager ''failing-plugin'' + 2 + 1 \<and>
            error_count (snd (initializePlugin ''failing-plugin'' flaky_manager)) ''failing-plugin'' =
              Some (errorCount (entry_metrics ?e) + int 2) \<and>
            waits (snd (initializePlugin ''failing-plugin'' flaky_manager)) =
              waits flaky_manager @ map (\<lambda>i. 1000 * int i) [1..<Suc 2]"
    using initializePlugin_retries[OF flaky_entry h2 h3] by blast
  with o show ?thesis by (simp add: c0 w0 upt_rec)
qed

section \<open>Registering an id twice\<close>

text \<open>
  Claim C8. For every id already present in the registry, \<open>registerPlugin\<close> with that id fails
  with the duplicate-registration error and leaves the state, with the plugin map and the
  dependency map, as it was.
\<close>

theorem registerPlugin_duplicate:
  assumes "has m name"
  shows "registerPlugin name p cfg now m =
           (Inl \<lparr>message = ''Plugin already registered: '' @ name, code = CONFIGURATION_ERROR,
                 cause = None, error_context = []\<rparr>, m)"
  using assms
  by (simp add: registerPlugin_def validatePluginConfig_def already_registered_error_def)

theorem registerPlugin_duplicate_witness:
  "has chain_manager ''plugin-b'' \<and>
   registerPlugin ''plugin-b'' mock_plugin no_config 7 chain_manager =
     (Inl \<lparr>message = ''Plugin already registered: plugin-b'', code = ''CONFIGURATION_ERROR'',
           cause = None, error_context = []\<rparr>, chain_manager)"
proof -
  have h: "has chain_manager ''plugin-b''" by (simp add: has_def keys_chain)
  from registerPlugin_duplicate[OF h] h show ?thesis by (simp add: CONFIGURATION_ERROR_def)
qed

section \<open>Termination and restart\<close>

lemma map_delete_update:
  "map_delete name (map (\<lambda>(k, e). if k = name then (k, f e) else (k, e)) ps) = map_delete name ps"
  by (induction ps) (auto simp: map_delete_def split: if_splits)

lemma has_plugins_map_delete:
  "\<not> has (m\<lparr>plugins := map_delete name ps, dependencies := ds\<rparr>) name"
  by (auto simp: has_def keys_def map_delete_def)

lemma map_of_map_delete: "map_of (map_delete name ps) name = None"
  by (induction ps) (auto simp: map_delete_def)

lemma map_delete_update_entry [simp]:
  "map_delete name (plugins (update_entry name f m)) = map_delete name (plugins m)"
  by (simp add: update_entry_def map_delete_update)

lemma call_destroy_outcome:
  "get_entry m name = Some entry \<Longrightarrow>
     destroy_outcome m name = Some (fst (call_destroy name entry m))"
  by (simp add: call_destroy_def destroy_outcome_def split: option.splits)

lemma call_destroy_simps [simp]:
  "keys (snd (call_destroy name entry m)) = keys m"
  "dependencies (snd (call_destroy name entry m)) = dependencies m"
  "events (snd (call_destroy name entry m)) =
     events m @ (if destroy (plugin entry) = None then [] else [Call_destroy name])"
  "map_delete name (plugins (snd (call_destroy name entry m))) = map_delete name (plugins m)"
  by (simp_all add: call_destroy_def split: option.splits)

lemma call_destroy_observers [simp]:
  "is_initialized (snd (call_destroy name entry m)) k = is_initialized m k"
  "error_count (snd (call_destroy name entry m)) k = error_count m k"
  "initialize_calls (snd (call_destroy name entry m)) k = initialize_calls m k"
  by (auto simp: call_destroy_def is_initialized_def error_count_def initialize_calls_def
      option.map_comp comp_def split: option.splits)

lemma initialized_entry_outcome:
  "destroy_outcome initialized_manager ''test-plugin'' = Some Resolved"
  by code_simp

lemma cleanup_failing_outcome:
  "destroy_outcome cleanup_failing_manager ''failing-plugin'' =
     Some (Rejected (Error_instance ''Cleanup failed''))"
  by code_simp

text \<open>
  Claim C2. For every registered plugin id, \<open>terminatePlugin\<close> removes the entry and its
  dependency edges if and only if the plugin's \<open>destroy\<close> succeeds or is absent; when
  \<open>destroy\<close> fails, the error is logged and the entry and its edges stay registered. In both
  cases the call returns normally.
\<close>

theorem terminatePlugin_removes_iff_destroyed:
  assumes "has m name"
  shows "fst (terminatePlugin name m) = Inr () \<and>
    (has (snd (terminatePlugin name m)) name \<longleftrightarrow> destroy_outcome m name \<noteq> Some Resolved) \<and>
    (destroy_outcome m name = Some Resolved \<longrightarrow>
       plugins (snd (terminatePlugin name m)) = map_delete name (plugins m) \<and>
       dependencies (snd (terminatePlugin name m)) = map_delete name (dependencies m) \<and>
       \<not> has (snd (terminatePlugin name m)) name \<and>
       get_dependencies (snd (terminatePlugin name m)) name = None) \<and>
    (\<forall>error. destroy_outcome m name = Some (Rejected error) \<longrightarrow>
       has (snd (terminatePlugin name m)) name \<and>
       keys (snd (terminatePlugin name m)) = keys m \<and>
       dependencies (snd (terminatePlugin name m)) = dependencies m \<and>
       is_initialized (snd (terminatePlugin name m)) name = is_initialized m name \<and>
       error_count (snd (terminatePlugin name m)) name = error_count m name \<and>
       events (snd (terminatePlugin name m)) =
         events m @ [Log_info (''Terminating plugin: '' @ name), Call_destroy name,
                     Log_error (''Plugin termination failed: '' @ name) (From_plugin error)])"
proof -
  from assms obtain entry where e: "get_entry m name = Some entry"
    by (auto simp: has_get_entry)
  let ?m0 = "log_info (''Terminating plugin: '' @ name) m"
  have e0: "get_entry ?m0 name = Some entry" using e by simp
  have d: "destroy_outcome m name = Some (fst (call_destroy name entry ?m0))"
    using call_destroy_outcome[OF e0] by (simp add: destroy_outcome_def)
  show ?thesis
  proof (cases "fst (call_destroy name entry ?m0)")
    case Resolved
    then have t: "terminatePlugin name m =
        (Inr (), (snd (call_destroy name entry ?m0))
                   \<lparr>plugins := map_delete name (plugins m),
                    dependencies := map_delete name (dependencies m)\<rparr>)"
      using e0 by (simp add: terminatePlugin_def Let_def case_prod_beta)
    show ?thesis unfolding t d Resolved
      by (simp add: has_plugins_map_delete get_dependencies_def map_of_map_delete)
  next
    case (Rejected error)
    then have t: "terminatePlugin name m =
        (Inr (), log_error (''Plugin termination failed: '' @ name) (From_plugin error)
                   (snd (call_destroy name entry ?m0)))"
      using e0 by (simp add: terminatePlugin_def Let_def case_prod_beta)
    have present: "destroy (plugin entry) \<noteq> None"
      using Rejected by (auto simp: call_destroy_def split: option.splits)
    show ?thesis unfolding t d Rejected using assms present
      by (simp add: has_def)
  qed
qed

theorem terminatePlugin_removes_iff_destroyed_witness:
  "has initialized_manager ''test-plugin'' \<and>
   \<not> has (snd (terminatePlugin ''test-plugin'' initialized_manager)) ''test-plugin'' \<and>
   has cleanup_failing_manager ''failing-plugin'' \<and>
   fst (terminatePlugin ''failing-plugin'' cleanup_failing_manager) = Inr () \<and>
   has (snd (terminatePlugin ''failing-plugin'' cleanup_failing_manager)) ''failing-plugin'' \<and>
   events (snd (terminatePlugin ''failing-plugin'' cleanup_failing_manager)) =
     events cleanup_failing_manager @
       [Log_info ''Terminating plugin: failing-plugin'', Call_destroy ''failing-plugin'',
        Log_error ''Plugin termination failed: failing-plugin''
          (From_plugin (Error_instance ''Cleanup failed''))]"
proof -
  have h1: "has initialized_manager ''test-plugin''" by code_simp
  have h2: "has cleanup_failing_manager ''failing-plugin''" by code_simp
  from terminatePlugin_removes_iff_destroyed[OF h1] initialized_entry_outcome
  have a: "\<not> has (snd (terminatePlugin ''test-plugin'' initialized_manager)) ''test-plugin''"
    by simp
  from terminatePlugin_removes_iff_destroyed[OF h2] cleanup_failing_outcome
  have b: "fst (terminatePlugin ''failing-plugin'' cleanup_failing_manager) = Inr () \<and>
   has (snd (terminatePlugin ''failing-plugin'' cleanup_failing_manager)) ''failing-plugin'' \<and>
   events (snd (terminatePlugin ''failing-plugin'' cleanup_failing_manager)) =
     events cleanup_failing_manager @
       [Log_info ''Terminating plugin: failing-plugin'', Call_destroy ''failing-plugin'',
        Log_error ''Plugin termination failed: failing-plugin''
          (From_plugin (Error_instance ''Cleanup failed''))]"
    by simp
  from h1 h2 a b show ?thesis by blast
qed

text \<open>
  Claim C6 says that a restart always sets \<open>isInitialized\<close> to false and runs
  \<open>initializePlugin\<close> again, whatever \<open>destroy\<close> does. The call of \<open>destroy\<close>, the reset of the
  flag and the call of \<open>initializePlugin\<close> stand in one \<open>try\<close> block: when \<open>destroy\<close> fails,
  the \<open>catch\<close> logs the failure and the two later steps are skipped. The plugin below was
  initialized with one call of \<open>initialize\<close>; after the restart it still counts as initialized
  and \<open>initialize\<close> was not called again.
\<close>

theorem restartPlugin_counterexample:
  "has cleanup_failing_manager ''failing-plugin'' \<and>
   is_initialized cleanup_failing_manager ''failing-plugin'' \<and>
   initialize_calls cleanup_failing_manager ''failing-plugin'' = 1 \<and>
   is_initialized (snd (restartPlugin ''failing-plugin'' cleanup_failing_manager)) ''failing-plugin'' \<and>
   initialize_calls (snd (restartPlugin ''failing-plugin'' cleanup_failing_manager)) ''failing-plugin'' = 1"
  by code_simp

text \<open>
  Claim C6, amended. Whenever the restart strategy is run for a registered plugin, the call
  returns normally. When \<open>destroy\<close> fails, its error is logged as the failure of the restart,
  \<open>isInitialized\<close> and \<open>errorCount\<close> are left as they were and \<open>initialize\<close> is not called. When
  \<open>destroy\<close> succeeds or is absent, \<open>isInitialized\<close> is set to false and \<open>initializePlugin\<close> is
  run for that id from the state so reached; an error it throws is logged and swallowed.
\<close>

theorem restartPlugin_swallows:
  assumes "has m name"
  shows "fst (restartPlugin name m) = Inr () \<and>
    (\<forall>error. destroy_outcome m name = Some (Rejected error) \<longrightarrow>
       events (snd (restartPlugin name m)) =
         events m @ [Log_info (''Restarting plugin: '' @ name), Call_destroy name,
                     Log_error (''Plugin restart failed: '' @ name) (From_plugin error)] \<and>
       is_initialized (snd (restartPlugin name m)) name = is_initialized m name \<and>
       initialize_calls (snd (restartPlugin name m)) name = initialize_calls m name \<and>
       error_count (snd (restartPlugin name m)) name = error_count m name) \<and>
    (destroy_outcome m name = Some Resolved \<longrightarrow>
       (\<exists>m1. \<not> is_initialized m1 name \<and> has m1 name \<and>
             initialize_calls m1 name = initialize_calls m name \<and>
             error_count m1 name = error_count m name \<and>
             snd (restartPlugin name m) =
               (case initializePlugin name m1 of
                  (Inl error, m2) \<Rightarrow>
                    log_error (''Plugin restart failed: '' @ name) (From_manager error) m2
                | (Inr u, m2) \<Rightarrow> m2)))"
proof -
  from assms obtain entry where e: "get_entry m name = Some entry"
    by (auto simp: has_get_entry)
  let ?m0 = "log_info (''Restarting plugin: '' @ name) m"
  have e0: "get_entry ?m0 name = Some entry" using e by simp
  have d: "destroy_outcome m name = Some (fst (call_destroy name entry ?m0))"
    using call_destroy_outcome[OF e0] by (simp add: destroy_outcome_def)
  show ?thesis
  proof (cases "fst (call_destroy name entry ?m0)")
    case Resolved
    let ?m1 = "update_entry name (\<lambda>e. e\<lparr>isInitialized := False\<rparr>) (snd (call_destroy name entry ?m0))"
    have t: "restartPlugin name m =
        (case initializePlugin name ?m1 of
           (Inl error, m2) \<Rightarrow>
             (Inr (), log_error (''Plugin restart failed: '' @ name) (From_manager error) m2)
         | (Inr u, m2) \<Rightarrow> (Inr (), m2))"
      using e0 Resolved by (simp add: restartPlugin_def Let_def case_prod_beta split: sum.splits)
    have 1: "fst (restartPlugin name m) = Inr ()"
      unfolding t by (simp add: case_prod_beta split: sum.splits)
    have 2: "snd (restartPlugin name m) =
               (case initializePlugin name ?m1 of
                  (Inl error, m2) \<Rightarrow>
                    log_error (''Plugin restart failed: '' @ name) (From_manager error) m2
                | (Inr u, m2) \<Rightarrow> m2)"
      unfolding t by (simp add: case_prod_beta split: sum.splits)
    have 3: "\<not> is_initialized ?m1 name" by (simp add: is_initialized_set)
    have 4: "has ?m1 name" using assms by (simp add: has_def)
    have 5: "initialize_calls ?m1 name = initialize_calls m name" by simp
    have 6: "error_count ?m1 name = error_count m name" by simp
    show ?thesis unfolding d Resolved using 1 2 3 4 5 6 by blast
  next
    case (Rejected error)
    then have t: "restartPlugin name m =
        (Inr (), log_error (''Plugin restart failed: '' @ name) (From_plugin error)
                   (snd (call_destroy name entry ?m0)))"
      using e0 by (simp add: restartPlugin_def Let_def case_prod_beta)
    have present: "destroy (plugin entry) \<noteq> None"
      using Rejected by (auto simp: call_destroy_def split: option.splits)
    show ?thesis unfolding t d Rejected using present by simp
  qed
qed

theorem restartPlugin_swallows_witness:
  "has cleanup_failing_manager ''failing-plugin'' \<and>
   fst (restartPlugin ''failing-plugin'' cleanup_failing_manager) = Inr () \<and>
   events (snd (restartPlugin ''failing-plugin'' cleanup_failing_manager)) =
     events cleanup_failing_manager @
       [Log_info ''Restarting plugin: failing-plugin'', Call_destroy ''failing-plugin'',
        Log_error ''Plugin restart failed: failing-plugin''
          (From_plugin (Error_instance ''Cleanup failed''))]"
proof -
  have h: "has cleanup_failing_manager ''failing-plugin''" by code_simp
  from restartPlugin_swallows[OF h] cleanup_failing_outcome h show ?thesis by simp
qed

section \<open>Initializing all plugins\<close>

lemma init_frame_refl: "init_frame name m m"
  by (simp add: init_frame_def)

lemma init_frame_trans:
  "init_frame name m m1 \<Longrightarrow> init_frame name m1 m2 \<Longrightarrow> init_frame name m m2"
  unfolding init_frame_def
  apply (intro conjI)
         apply simp
        apply simp
       apply simp
      apply simp
     apply blast
    apply (meson order_trans)
   apply (metis append.assoc)
  apply simp
  done

lemma config_call_initialize [simp]:
  "map_option config (get_entry (snd (snd (call_initialize name p m))) k) =
     map_option config (get_entry m k)"
  by (simp add: get_entry_call_initialize option.map_comp comp_def)

lemma config_update_entry:
  "(\<And>e. config (f e) = config e) \<Longrightarrow>
   map_option config (get_entry (update_entry name f m) k) = map_option config (get_entry m k)"
  by (simp add: option.map_comp comp_def)

lemma init_frame_resolved:
  "init_frame name m
     (log_info msg (update_entry name (\<lambda>e. e\<lparr>isInitialized := True\<rparr>)
        (snd (snd (call_initialize name p m)))))"
  by (auto simp: init_frame_def get_entry_call_initialize is_initialized_set option.map_comp comp_def
      is_initialized_def has_get_entry split: option.splits)

lemma init_frame_failed:
  "init_frame name m
     (log_error msg err (update_entry name increment_errorCount
        (snd (snd (call_initialize name p m)))))"
  by (auto simp: init_frame_def get_entry_call_initialize option.map_comp comp_def
      increment_errorCount_def)

lemma init_frame_wait: "init_frame name m m' \<Longrightarrow> init_frame name m (wait ms m')"
  by (auto simp: init_frame_def)

lemma attempt_loop_frame:
  "attempts_left r a = d \<Longrightarrow> init_frame name m (snd (attempt_loop name p r a m))"
proof (induction d arbitrary: a p m)
  case 0
  then have "\<not> less_than_bound a r" by (rule attempts_left_0)
  then show ?case by (simp add: attempt_loop_done init_frame_refl)
next
  case (Suc d)
  show ?case
  proof (cases "less_than_bound a r")
    case False
    then show ?thesis by (simp add: attempt_loop_done init_frame_refl)
  next
    case lt: True
    show ?thesis
    proof (cases "race_timeout (next_initialize p 0)")
      case Resolved
      show ?thesis unfolding attempt_loop_resolved[OF lt Resolved]
        by (simp add: init_frame_resolved)
    next
      case (Rejected v)
      show ?thesis
      proof (cases "equals_bound (a + 1) r")
        case True
        show ?thesis unfolding attempt_loop_last[OF lt Rejected True]
          by (simp add: init_frame_failed)
      next
        case False
        have "attempts_left r (a + 1) = d" using Suc.prems by (rule attempts_left_Suc)
        from Suc.IH[OF this] show ?thesis unfolding attempt_loop_retry[OF lt Rejected False]
          using init_frame_trans[OF init_frame_wait[OF init_frame_failed]] by blast
      qed
    qed
  qed
qed

lemma initializePlugin_frame: "init_frame name m (snd (initializePlugin name m))"
  by (simp add: initializePlugin_def init_frame_refl attempt_loop_frame split: option.splits)










section \<open>The error count\<close>

lemma error_count_has: "(\<exists>c. error_count m k = Some c) \<longleftrightarrow> has m k"
  by (auto simp: error_count_def has_get_entry)

lemma monotone_step_refl: "monotone_step names m m"
  by (simp add: monotone_step_def)

lemma monotone_step_trans:
  assumes "monotone_step names m m1" "monotone_step names m1 m2"
  shows "monotone_step names m m2"
  unfolding monotone_step_def
proof (intro conjI allI impI)
  show "set (keys m2) \<subseteq> set (keys m)" using assms by (auto simp: monotone_step_def)
  show "\<exists>new. events m2 = events m @ new" using assms by (auto simp: monotone_step_def)
next
  fix k assume "k \<notin> names"
  then show "get_entry m2 k = get_entry m k" using assms by (simp add: monotone_step_def)
next
  fix k c c' assume c: "error_count m k = Some c" and c': "error_count m2 k = Some c'"
  then have "has m2 k" using error_count_has by blast
  then have "has m1 k" using assms(2) by (auto simp: monotone_step_def has_def)
  then obtain c1 where c1: "error_count m1 k = Some c1" using error_count_has by blast
  have "c \<le> c1" using assms(1) c c1 by (simp add: monotone_step_def)
  moreover have "c1 \<le> c'" using assms(2) c1 c' by (simp add: monotone_step_def)
  ultimately show "c \<le> c'" by simp
qed

lemma init_frame_monotone: "init_frame name m m' \<Longrightarrow> monotone_step {name} m m'"
  unfolding init_frame_def monotone_step_def by (metis option.inject singletonI subset_refl)

lemma monotone_step_log:
  "monotone_step names m (log_info msg m)"
  "monotone_step names m (log_warn msg m)"
  "monotone_step names m (log_error msg err m)"
  by (simp_all add: monotone_step_def)

lemma get_entry_call_destroy:
  "k \<noteq> name \<Longrightarrow> get_entry (snd (call_destroy name entry m)) k = get_entry m k"
  by (simp add: call_destroy_def split: option.splits)

lemma monotone_step_call_destroy: "monotone_step {name} m (snd (call_destroy name entry m))"
  by (simp add: monotone_step_def get_entry_call_destroy)

lemma monotone_step_reset:
  "monotone_step {name} m (update_entry name (\<lambda>e. e\<lparr>isInitialized := b\<rparr>) m)"
  by (simp add: monotone_step_def)

lemma monotone_step_initializePlugin: "monotone_step {name} m (snd (initializePlugin name m))"
  by (rule init_frame_monotone[OF initializePlugin_frame])

lemma restartPlugin_after_log:
  "monotone_step {name} (log_info (''Restarting plugin: '' @ name) m) (snd (restartPlugin name m))"
proof -
  let ?m0 = "log_info (''Restarting plugin: '' @ name) m"
  show ?thesis
  proof (cases "get_entry ?m0 name")
    case None
    then show ?thesis
      using monotone_step_log(3)[where names = "{name}" and m = ?m0]
      by (simp add: restartPlugin_def Let_def)
  next
    case (Some entry)
    let ?m1 = "snd (call_destroy name entry ?m0)"
    have 1: "monotone_step {name} ?m0 ?m1"
      by (rule monotone_step_call_destroy)
    show ?thesis
    proof (cases "fst (call_destroy name entry ?m0)")
      case (Rejected error)
      then show ?thesis
        using Some monotone_step_trans[OF 1 monotone_step_log(3)]
        by (simp add: restartPlugin_def Let_def case_prod_beta)
    next
      case Resolved
      let ?m2 = "update_entry name (\<lambda>e. e\<lparr>isInitialized := False\<rparr>) ?m1"
      have 2: "monotone_step {name} ?m0 ?m2"
        by (rule monotone_step_trans[OF 1 monotone_step_reset])
      have 3: "monotone_step {name} ?m0 (snd (initializePlugin name ?m2))"
        by (rule monotone_step_trans[OF 2 monotone_step_initializePlugin])
      show ?thesis
      proof (cases "fst (initializePlugin name ?m2)")
        case (Inl e)
        then show ?thesis
          using Some Resolved monotone_step_trans[OF 3 monotone_step_log(3)]
          by (simp add: restartPlugin_def Let_def case_prod_beta)
      next
        case (Inr u)
        then show ?thesis
          using Some Resolved 3
          by (simp add: restartPlugin_def Let_def case_prod_beta)
      qed
    qed
  qed
qed

lemma monotone_step_restartPlugin: "monotone_step {name} m (snd (restartPlugin name m))"
  by (rule monotone_step_trans[OF monotone_step_log(1) restartPlugin_after_log])

lemma monotone_step_weaken:
  "monotone_step names m m' \<Longrightarrow> names \<subseteq> names' \<Longrightarrow> monotone_step names' m m'"
  unfolding monotone_step_def by blast

lemma monotone_step_failoverPlugin: "monotone_step {name} m (snd (failoverPlugin name m))"
  by (simp add: failoverPlugin_def monotone_step_log)

lemma map_of_map_delete_other: "k \<noteq> name \<Longrightarrow> map_of (map_delete name ps) k = map_of ps k"
  by (induction ps) (auto simp: map_delete_def)

lemma monotone_step_delete:
  "monotone_step {name} m
     (m\<lparr>plugins := map_delete name (plugins m), dependencies := ds\<rparr>)"
  unfolding monotone_step_def
proof (intro conjI allI impI)
  let ?m = "m\<lparr>plugins := map_delete name (plugins m), dependencies := ds\<rparr>"
  show "set (keys ?m) \<subseteq> set (keys m)" by (auto simp: keys_def map_delete_def)
  show "\<exists>new. events ?m = events m @ new" by simp
  fix k
  show "k \<notin> {name} \<Longrightarrow> get_entry ?m k = get_entry m k"
    by (simp add: get_entry_def map_of_map_delete_other)
  fix c c' assume c: "error_count m k = Some c" "error_count ?m k = Some c'"
  have "k \<noteq> name" using c(2) by (auto simp: error_count_def get_entry_def map_of_map_delete)
  then have "error_count ?m k = error_count m k"
    by (simp add: error_count_def get_entry_def map_of_map_delete_other)
  then show "c \<le> c'" using c by simp
qed

lemma terminatePlugin_after_log:
  "monotone_step {name} (log_info (''Terminating plugin: '' @ name) m) (snd (terminatePlugin name m))"
proof -
  let ?m0 = "log_info (''Terminating plugin: '' @ name) m"
  show ?thesis
  proof (cases "get_entry ?m0 name")
    case None
    then show ?thesis
      using monotone_step_log(3)[where names = "{name}" and m = ?m0]
      by (simp add: terminatePlugin_def Let_def)
  next
    case (Some entry)
    let ?m1 = "snd (call_destroy name entry ?m0)"
    have 1: "monotone_step {name} ?m0 ?m1"
      by (rule monotone_step_call_destroy)
    show ?thesis
    proof (cases "fst (call_destroy name entry ?m0)")
      case (Rejected error)
      then show ?thesis
        using Some monotone_step_trans[OF 1 monotone_step_log(3)]
        by (simp add: terminatePlugin_def Let_def case_prod_beta)
    next
      case Resolved
      have "monotone_step {name} ?m0
          (?m1\<lparr>plugins := map_delete name (plugins ?m1),
               dependencies := map_delete name (dependencies ?m1)\<rparr>)"
        by (rule monotone_step_trans[OF 1 monotone_step_delete])
      then show ?thesis
        using Some Resolved
        by (simp add: terminatePlugin_def Let_def case_prod_beta)
    qed
  qed
qed

lemma monotone_step_terminatePlugin: "monotone_step {name} m (snd (terminatePlugin name m))"
  by (rule monotone_step_trans[OF monotone_step_log(1) terminatePlugin_after_log])

lemma monotone_step_handlePluginFailure:
  "monotone_step {name} m (snd (handlePluginFailure name entry m))"
  by (simp add: handlePluginFailure_def monotone_step_restartPlugin monotone_step_failoverPlugin
      monotone_step_terminatePlugin monotone_step_refl
      split: option.splits recovery_strategy.splits)

lemma monotone_step_check_plugin: "monotone_step {name} m (check_plugin now name m)"
proof (cases "get_entry m name")
  case None
  then show ?thesis by (simp add: check_plugin_def monotone_step_refl)
next
  case (Some entry)
  let ?m1 = "if now - lastHeartbeat (entry_metrics entry) > 30000
             then log_warn (''Plugin heartbeat timeout: '' @ name) m else m"
  have 1: "monotone_step {name} m ?m1" by (simp add: monotone_step_log monotone_step_refl)
  have 2: "monotone_step {name} m (snd (handlePluginFailure name entry ?m1))"
    by (rule monotone_step_trans[OF 1 monotone_step_handlePluginFailure])
  show ?thesis using Some 1 2 by (simp add: check_plugin_def Let_def)
qed

lemma monotone_step_check_all:
  "monotone_step UNIV m (foldl (\<lambda>m' name. check_plugin now name m') m names)"
proof (induction names arbitrary: m)
  case Nil
  then show ?case by (simp add: monotone_step_refl)
next
  case (Cons name names)
  have "monotone_step UNIV m (check_plugin now name m)"
    by (rule monotone_step_weaken[OF monotone_step_check_plugin]) simp
  from monotone_step_trans[OF this Cons.IH] show ?case by simp
qed

lemma monotone_step_health_check: "monotone_step UNIV m (health_check now m)"
  by (simp add: health_check_def monotone_step_check_all)

lemma monotone_step_initialize_each:
  "monotone_step UNIV m (snd (initialize_each names m))"
proof (induction names arbitrary: m)
  case Nil
  then show ?case by (simp add: monotone_step_refl)
next
  case (Cons name names)
  have 1: "monotone_step UNIV m (snd (initializePlugin name m))"
    by (rule monotone_step_weaken[OF monotone_step_initializePlugin]) simp
  show ?case
  proof (cases "fst (initializePlugin name m)")
    case (Inl e)
    then show ?thesis using 1 by (simp add: case_prod_beta)
  next
    case (Inr u)
    then show ?thesis using monotone_step_trans[OF 1 Cons.IH] by (simp add: case_prod_beta)
  qed
qed

lemma monotone_step_initializePlugins: "monotone_step UNIV m (snd (initializePlugins m))"
  by (simp add: initializePlugins_def monotone_step_refl monotone_step_initialize_each
      split: sum.splits)

lemma registerPlugin_error_count:
  assumes "error_count m k = Some c" "error_count (snd (registerPlugin name p cfg now m)) k = Some c'"
  shows "c \<le> c'"
proof (cases "validatePluginConfig name cfg m")
  case (Inl e)
  then show ?thesis using assms by (simp add: registerPlugin_def)
next
  case (Inr u)
  then have "\<not> has m name" by (auto simp: validatePluginConfig_def split: if_splits)
  then have "k \<noteq> name" using assms(1) error_count_has by blast
  then have "error_count (snd (registerPlugin name p cfg now m)) k = error_count m k"
    using get_entry_registerPlugin[of name cfg m] Inr by (simp add: error_count_def)
  then show ?thesis using assms by simp
qed

lemma perform_error_count:
  assumes "error_count m k = Some c" "error_count (perform op m) k = Some c'"
  shows "c \<le> c'"
proof (cases op)
  case (Op_registerPlugin name p cfg now)
  then show ?thesis using registerPlugin_error_count assms by simp
qed (use assms monotone_step_initializePlugins[of m] monotone_step_initializePlugin
      monotone_step_restartPlugin monotone_step_failoverPlugin monotone_step_terminatePlugin
      monotone_step_health_check in \<open>auto simp: monotone_step_def\<close>)


lemma handlePluginFailure_starts:
  assumes "recoveryStrategy (config_errorHandling (config entry)) = Some s"
  shows "\<exists>new. events (snd (handlePluginFailure name entry m)) =
     events m @ recovery_started s name # new"
proof (cases s)
  case Restart
  from restartPlugin_after_log[of name m] obtain new where
    "events (snd (restartPlugin name m)) = events (log_info (''Restarting plugin: '' @ name) m) @ new"
    by (auto simp: monotone_step_def)
  then show ?thesis using Restart assms by (simp add: handlePluginFailure_def recovery_started_def)
next
  case Failover
  then show ?thesis using assms
    by (simp add: handlePluginFailure_def recovery_started_def failoverPlugin_def)
next
  case Terminate
  from terminatePlugin_after_log[of name m] obtain new where
    "events (snd (terminatePlugin name m)) = events (log_info (''Terminating plugin: '' @ name) m) @ new"
    by (auto simp: monotone_step_def)
  then show ?thesis using Terminate assms by (simp add: handlePluginFailure_def recovery_started_def)
qed

lemma check_plugin_dispatch:
  assumes "get_entry m name = Some entry" "10 < errorCount (entry_metrics entry)"
    "recoveryStrategy (config_errorHandling (config entry)) = Some s"
  shows "\<exists>new. events (check_plugin now name m) = events m @ new \<and>
     recovery_started s name \<in> set new"
proof -
  let ?m1 = "if now - lastHeartbeat (entry_metrics entry) > 30000
             then log_warn (''Plugin heartbeat timeout: '' @ name) m else m"
  have c: "check_plugin now name m = snd (handlePluginFailure name entry ?m1)"
    using assms by (simp add: check_plugin_def Let_def)
  obtain pre where pre: "events ?m1 = events m @ pre"
    by (cases "now - lastHeartbeat (entry_metrics entry) > 30000") simp_all
  from handlePluginFailure_starts[OF assms(3), of name ?m1] obtain new where
    "events (snd (handlePluginFailure name entry ?m1)) =
       events ?m1 @ recovery_started s name # new"
    by blast
  then have "events (check_plugin now name m) =
      events m @ (pre @ recovery_started s name # new)"
    unfolding c pre by simp
  moreover have "recovery_started s name \<in> set (pre @ recovery_started s name # new)" by simp
  ultimately show ?thesis by blast
qed

lemma check_all_dispatch:
  assumes "name \<in> set names" "get_entry m name = Some entry" "10 < errorCount (entry_metrics entry)"
    "recoveryStrategy (config_errorHandling (config entry)) = Some s"
  shows "\<exists>new. events (foldl (\<lambda>m' k. check_plugin now k m') m names) = events m @ new \<and>
     recovery_started s name \<in> set new"
  using assms
proof (induction names arbitrary: m)
  case Nil
  then show ?case by simp
next
  case (Cons k names)
  let ?line = "recovery_started s name"
  let ?m' = "check_plugin now k m"
  show ?case
  proof (cases "k = name")
    case True
    from check_plugin_dispatch[OF Cons.prems(2,3,4), of now] obtain new where
      n: "events (check_plugin now name m) = events m @ new" "?line \<in> set new" by blast
    from monotone_step_check_all[of "check_plugin now name m" now names] obtain more where
      "events (foldl (\<lambda>m' k. check_plugin now k m') (check_plugin now name m) names) =
         events (check_plugin now name m) @ more"
      by (auto simp: monotone_step_def)
    then have "events (foldl (\<lambda>m' k. check_plugin now k m') m (k # names)) = events m @ (new @ more)"
      using True n(1) by simp
    moreover have "?line \<in> set (new @ more)" using n(2) by simp
    ultimately show ?thesis by blast
  next
    case False
    then have in_rest: "name \<in> set names" using Cons.prems(1) by simp
    have same: "get_entry ?m' name = Some entry"
      using monotone_step_check_plugin[of k m now] False Cons.prems(2)
      by (simp add: monotone_step_def)
    from Cons.IH[OF in_rest same Cons.prems(3,4)] obtain new where
      n: "events (foldl (\<lambda>m' k. check_plugin now k m') ?m' names) = events ?m' @ new"
        "?line \<in> set new" by blast
    from monotone_step_check_plugin[of k m now] obtain pre where
      "events ?m' = events m @ pre" by (auto simp: monotone_step_def)
    then have "events (foldl (\<lambda>m' k. check_plugin now k m') m (k # names)) = events m @ (pre @ new)"
      using n(1) by simp
    moreover have "?line \<in> set (pre @ new)" using n(2) by simp
    ultimately show ?thesis by blast
  qed
qed

lemma health_check_dispatch:
  assumes "error_count m name = Some c" "10 < c" "configured_strategy m name = Some (Some s)"
  shows "\<exists>new. events (health_check now m) = events m @ new \<and> recovery_started s name \<in> set new"
proof -
  from assms(1) obtain entry where e: "get_entry m name = Some entry"
    and c: "errorCount (entry_metrics entry) = c"
    by (auto simp: error_count_def)
  have s: "recoveryStrategy (config_errorHandling (config entry)) = Some s"
    using assms(3) e by (simp add: configured_strategy_def)
  have "has m name" using e by (simp add: has_get_entry)
  then have "name \<in> set (keys m)" by (simp add: has_def)
  from check_all_dispatch[OF this e _ s, of now] assms(2) c show ?thesis
    by (simp add: health_check_def)
qed

lemma perform_all_error_count:
  "error_count m name = Some c \<Longrightarrow> stays_registered name ops m \<Longrightarrow>
     \<exists>c'. error_count (perform_all ops m) name = Some c' \<and> c \<le> c'"
proof (induction ops arbitrary: m c)
  case Nil
  then show ?case by simp
next
  case (Cons op ops)
  then have "has (perform op m) name" by simp
  then obtain c1 where c1: "error_count (perform op m) name = Some c1"
    using error_count_has by blast
  have le: "c \<le> c1" using perform_error_count[OF Cons.prems(1) c1] .
  from Cons.IH[OF c1] Cons.prems(2) obtain c' where
    "error_count (perform_all ops (perform op m)) name = Some c'" "c1 \<le> c'" by auto
  then show ?case using le by auto
qed

lemma overloaded_order:
  "resolveInitializationOrder
     (register ''failing-plugin'' failing_plugin (failover_after 11) new_manager) =
   Inr [''failing-plugin'']"
  by code_simp

lemma overloaded_unfold:
  "overloaded_manager =
     snd (initializePlugin ''failing-plugin''
            (register ''failing-plugin'' failing_plugin (failover_after 11) new_manager))"
  unfolding overloaded_manager_def initializePlugins_def overloaded_order
  by (simp split: prod.splits sum.splits)

lemma overloaded_facts:
  "error_count overloaded_manager ''failing-plugin'' = Some 11 \<and>
   configured_strategy overloaded_manager ''failing-plugin'' = Some (Some Failover) \<and>
   has (health_check 10000 overloaded_manager) ''failing-plugin'' \<and>
   configured_strategy (health_check 10000 overloaded_manager) ''failing-plugin'' =
     Some (Some Failover)"
  unfolding overloaded_unfold
  by (simp add: failing_plugin_def
      failover_after_def run_simps check_plugin_def health_check_def handlePluginFailure_def
      failoverPlugin_def configured_strategy_def)

text \<open>
  Claim C10. No operation lowers the \<open>errorCount\<close> of an entry: whenever an id has a count
  before and after an operation, the later one is at least the earlier one. So an id whose
  count is above 10 and that stays registered through a list of operations still has a count
  above 10 after them, and every callback of the interval that runs then dispatches its
  recovery: when the configured strategy is one of the three, the events the callback adds
  contain the line that strategy logs first (a strategy that is \<open>undefined\<close> matches no case
  of the \<open>switch\<close>, and nothing is logged).
\<close>

theorem errorCount_never_decreases:
  "(\<forall>k c c'. error_count m k = Some c \<and> error_count (perform op m) k = Some c' \<longrightarrow> c \<le> c') \<and>
   (\<forall>c s. error_count m name = Some c \<and> 10 < c \<and> stays_registered name ops m \<and>
          configured_strategy (perform_all ops m) name = Some (Some s) \<longrightarrow>
      (\<exists>c'. error_count (perform_all ops m) name = Some c' \<and> c \<le> c' \<and> 10 < c') \<and>
      (\<forall>now. \<exists>new. events (health_check now (perform_all ops m)) =
                       events (perform_all ops m) @ new \<and>
                     recovery_started s name \<in> set new))"
proof (intro conjI allI impI)
  fix k c c'
  assume "error_count m k = Some c \<and> error_count (perform op m) k = Some c'"
  then show "c \<le> c'" using perform_error_count by blast
next
  fix c s
  assume a: "error_count m name = Some c \<and> 10 < c \<and> stays_registered name ops m \<and>
          configured_strategy (perform_all ops m) name = Some (Some s)"
  then obtain c' where c': "error_count (perform_all ops m) name = Some c'" "c \<le> c'"
    using perform_all_error_count by blast
  then show "\<exists>c'. error_count (perform_all ops m) name = Some c' \<and> c \<le> c' \<and> 10 < c'"
    using a by auto
  fix now
  have "10 < c'" using a c'(2) by simp
  from health_check_dispatch[OF c'(1) this] a
  show "\<exists>new. events (health_check now (perform_all ops m)) = events (perform_all ops m) @ new \<and>
                     recovery_started s name \<in> set new"
    by blast
qed

theorem errorCount_never_decreases_witness:
  "error_count overloaded_manager ''failing-plugin'' = Some 11 \<and>
   (\<exists>c'. error_count (perform_all [Op_health_check 10000] overloaded_manager)
           ''failing-plugin'' = Some c' \<and> 11 \<le> c' \<and> 10 < c') \<and>
   (\<forall>now. \<exists>new.
      events (health_check now (perform_all [Op_health_check 10000] overloaded_manager)) =
        events (perform_all [Op_health_check 10000] overloaded_manager) @ new \<and>
      recovery_started Failover ''failing-plugin'' \<in> set new)"
proof -
  let ?m = overloaded_manager
  let ?ops = "[Op_health_check 10000]"
  have h: "error_count ?m ''failing-plugin'' = Some 11 \<and> (10::int) < 11 \<and>
      stays_registered ''failing-plugin'' ?ops ?m \<and>
      configured_strategy (perform_all ?ops ?m) ''failing-plugin'' = Some (Some Failover)"
    using overloaded_facts by simp
  have "error_count ?m ''failing-plugin'' = Some 11 \<and> (10::int) < 11 \<and>
      stays_registered ''failing-plugin'' ?ops ?m \<and>
      configured_strategy (perform_all ?ops ?m) ''failing-plugin'' = Some (Some Failover) \<longrightarrow>
      (\<exists>c'. error_count (perform_all ?ops ?m) ''failing-plugin'' = Some c' \<and> 11 \<le> c' \<and> 10 < c') \<and>
      (\<forall>now. \<exists>new. events (health_check now (perform_all ?ops ?m)) =
                       events (perform_all ?ops ?m) @ new \<and>
                     recovery_started Failover ''failing-plugin'' \<in> set new)"
    using errorCount_never_decreases[where m = ?m and name = "''failing-plugin''" and ops = ?ops
        and op = "Op_health_check 10000"]
    by blast
  with h show ?thesis by blast
qed

section \<open>The heartbeat warning\<close>

text \<open>
  Claim C7 says that once the clock is 31000 ms past the registration, one warning has been
  logged for each plugin whose heartbeat is older than 30000 ms. With the manager created and
  \<open>test-plugin\<close> registered at time 0, the callback runs at 10000, 20000 and 30000. At the
  last of them the heartbeat is exactly 30000 ms old, which is not above the threshold, so at
  31000 no warning has been logged; the first comes with the callback at 40000.
\<close>

theorem health_check_silent_at_31000:
  "keys initialized_manager = [''test-plugin''] \<and>
   map_option (\<lambda>e. lastHeartbeat (entry_metrics e)) (get_entry initialized_manager ''test-plugin'') =
     Some 0 \<and>
   tick_times 0 0 31000 = [10000, 20000, 30000] \<and>
   warnings (advance_timers 0 0 31000 initialized_manager) = [] \<and>
   warnings (advance_timers 0 0 41000 initialized_manager) =
     [''Plugin heartbeat timeout: test-plugin'']"
  by code_simp

end
